theory Spec2Isabelle
  imports Main "HOL-Library.Product_Lexorder"
begin

section \<open>The board model of tictactoe.py\<close>

text \<open>
  The two marks are the strings \<^verbatim>\<open>X = "X"\<close> and \<^verbatim>\<open>O = "O"\<close>; a cell holds a mark
  or \<^verbatim>\<open>EMPTY = None\<close>.  A board is a Python list of rows, each row a list of cells.
  Nothing in the code fixes the dimensions, so a board is any list of lists here and
  the 3 by 3 shape is the predicate \<open>wf_board\<close>.
\<close>

datatype mark = MarkX | MarkO

type_synonym cell = "mark option"

type_synonym board = "cell list list"

text \<open>An action is the tuple \<^verbatim>\<open>(i, j)\<close> of two Python integers.\<close>

type_synonym action = "int \<times> int"

abbreviation EMPTY :: cell where
  "EMPTY \<equiv> None"

text \<open>
  The exceptions the module can raise: \<^verbatim>\<open>Exception("Invalid action")\<close> in
  \<^verbatim>\<open>result\<close>, and the \<^verbatim>\<open>IndexError\<close> of a subscript \<^verbatim>\<open>board[i][j]\<close> that is out of
  range (only on a board that is not 3 by 3).
\<close>

datatype error = InvalidAction | IndexError

definition wf_board :: "board \<Rightarrow> bool" where
  "wf_board board = (length board = 3 \<and> list_all (\<lambda>row. length row = 3) board)"

definition initial_state :: board where
  "initial_state = [[EMPTY, EMPTY, EMPTY],
                    [EMPTY, EMPTY, EMPTY],
                    [EMPTY, EMPTY, EMPTY]]"

text \<open>\<^verbatim>\<open>sum(row.count(X) for row in board)\<close>\<close>

definition count_mark :: "board \<Rightarrow> cell \<Rightarrow> nat" where
  "count_mark board c = sum_list (map (\<lambda>row. count_list row c) board)"

definition player :: "board \<Rightarrow> mark" where
  "player board =
     (let x_count = count_mark board (Some MarkX);
          o_count = count_mark board (Some MarkO)
      in if x_count \<le> o_count then MarkX else MarkO)"

text \<open>
  \<^verbatim>\<open>actions\<close> runs over \<^verbatim>\<open>enumerate(board)\<close> and \<^verbatim>\<open>enumerate(row)\<close> and collects
  the positions of the empty cells in a set.
\<close>

definition row_actions :: "nat \<Rightarrow> cell list \<Rightarrow> action list" where
  "row_actions i row =
     map (\<lambda>(j, cell). (int i, int j)) (filter (\<lambda>(j, cell). cell = EMPTY) (enumerate 0 row))"

definition actions_list :: "board \<Rightarrow> action list" where
  "actions_list board = concat (map (\<lambda>(i, row). row_actions i row) (enumerate 0 board))"

definition actions :: "board \<Rightarrow> action set" where
  "actions board = set (actions_list board)"

text \<open>
  \<^verbatim>\<open>result\<close> raises when the action is not in \<^verbatim>\<open>actions(board)\<close>; otherwise it
  writes the mark of \<^verbatim>\<open>player(board)\<close> into a deep copy.  After the membership test
  both indices are in range and not negative.  This is \<^verbatim>\<open>result\<close> on board values:
  what the code returns for a board whose rows are distinct list objects, as
  \<^verbatim>\<open>initial_state\<close> and \<^verbatim>\<open>result\<close> build them.  The store model \<open>result_h\<close> at the end
  of the theory has the objects, the deep copy and the shared rows.
\<close>

definition result :: "board \<Rightarrow> action \<Rightarrow> error + board" where
  "result board action =
     (if action \<notin> actions board then Inl InvalidAction
      else (case action of (i, j) \<Rightarrow>
        Inr (board[nat i := (board ! nat i)[nat j := Some (player board)]])))"

text \<open>
  A subscript \<^verbatim>\<open>board[i][j]\<close> with constant indices \<open>0..2\<close>: an \<^verbatim>\<open>IndexError\<close>
  when the board has no such row or the row no such cell.
\<close>

definition cell_at :: "board \<Rightarrow> nat \<Rightarrow> nat \<Rightarrow> error + cell" where
  "cell_at board i j =
     (if i < length board \<and> j < length (board ! i) then Inr (board ! i ! j)
      else Inl IndexError)"

text \<open>
  The chained comparison \<^verbatim>\<open>p == q == r != EMPTY\<close> over three subscripts: Python
  evaluates \<open>p\<close> and \<open>q\<close>, and reads \<open>r\<close> only when \<open>p == q\<close>.  The value returned
  for a complete line is its first cell, which is then not empty.
\<close>

definition line3 :: "board \<Rightarrow> nat \<times> nat \<Rightarrow> nat \<times> nat \<Rightarrow> nat \<times> nat \<Rightarrow> error + bool" where
  "line3 board p q r =
     (case cell_at board (fst p) (snd p) of
        Inl e \<Rightarrow> Inl e
      | Inr a \<Rightarrow>
          (case cell_at board (fst q) (snd q) of
             Inl e \<Rightarrow> Inl e
           | Inr b \<Rightarrow>
               if a \<noteq> b then Inr False
               else (case cell_at board (fst r) (snd r) of
                       Inl e \<Rightarrow> Inl e
                     | Inr c \<Rightarrow> Inr (b = c \<and> c \<noteq> EMPTY))))"

text \<open>
  The loop \<^verbatim>\<open>for i in range(3)\<close> of \<^verbatim>\<open>winner\<close>: row \<open>i\<close>, then column \<open>i\<close>.
  \<open>Some c\<close> is a \<^verbatim>\<open>return c\<close> from inside the loop, \<open>None\<close> its normal end.
\<close>

fun winner_loop :: "board \<Rightarrow> nat list \<Rightarrow> error + cell option" where
  "winner_loop board [] = Inr None"
| "winner_loop board (i # is) =
     (case line3 board (i, 0) (i, 1) (i, 2) of
        Inl e \<Rightarrow> Inl e
      | Inr hit_row \<Rightarrow>
          if hit_row then (case cell_at board i 0 of Inl e \<Rightarrow> Inl e | Inr c \<Rightarrow> Inr (Some c))
          else (case line3 board (0, i) (1, i) (2, i) of
                  Inl e \<Rightarrow> Inl e
                | Inr hit_col \<Rightarrow>
                    if hit_col
                    then (case cell_at board 0 i of Inl e \<Rightarrow> Inl e | Inr c \<Rightarrow> Inr (Some c))
                    else winner_loop board is))"

definition winner :: "board \<Rightarrow> error + cell" where
  "winner board =
     (case winner_loop board [0, 1, 2] of
        Inl e \<Rightarrow> Inl e
      | Inr (Some c) \<Rightarrow> Inr c
      | Inr None \<Rightarrow>
          (case line3 board (0, 0) (1, 1) (2, 2) of
             Inl e \<Rightarrow> Inl e
           | Inr d1 \<Rightarrow>
               if d1 then cell_at board 0 0
               else (case line3 board (0, 2) (1, 1) (2, 0) of
                       Inl e \<Rightarrow> Inl e
                     | Inr d2 \<Rightarrow> if d2 then cell_at board 0 2 else Inr None)))"

text \<open>\<^verbatim>\<open>all(cell != EMPTY for row in board for cell in row)\<close>\<close>

definition board_full :: "board \<Rightarrow> bool" where
  "board_full board = list_all (\<lambda>row. list_all (\<lambda>cell. cell \<noteq> EMPTY) row) board"

definition terminal :: "board \<Rightarrow> error + bool" where
  "terminal board =
     (case winner board of
        Inl e \<Rightarrow> Inl e
      | Inr w \<Rightarrow>
          if w \<noteq> None then Inr True
          else if board_full board then Inr True
          else Inr False)"

text \<open>\<^verbatim>\<open>utility\<close> calls \<^verbatim>\<open>winner\<close> once or twice, with the same outcome.\<close>

definition utility :: "board \<Rightarrow> error + int" where
  "utility board =
     (case winner board of
        Inl e \<Rightarrow> Inl e
      | Inr w \<Rightarrow>
          if w = Some MarkX then Inr 1
          else if w = Some MarkO then Inr (- 1)
          else Inr 0)"

section \<open>The minimax search\<close>

text \<open>
  The running best value starts as \<^verbatim>\<open>float("-inf")\<close> or \<^verbatim>\<open>float("inf")\<close> and is
  afterwards one of the integers returned by \<^verbatim>\<open>utility\<close>.
\<close>

datatype pyval = NegInf | Fin int | PosInf

fun gt :: "pyval \<Rightarrow> pyval \<Rightarrow> bool" where
  "gt (Fin a) (Fin b) = (a > b)"
| "gt (Fin a) NegInf = True"
| "gt PosInf (Fin b) = True"
| "gt PosInf NegInf = True"
| "gt _ _ = False"

definition lt :: "pyval \<Rightarrow> pyval \<Rightarrow> bool" where
  "lt a b = gt b a"

text \<open>
  \<^verbatim>\<open>for action in actions(board)\<close> walks a Python set, in an order the language does
  not fix.  The order is a parameter \<open>en\<close> of the search; \<open>valid_enum\<close> says what
  every set iteration guarantees: each element once, nothing else.
\<close>

type_synonym enum = "action set \<Rightarrow> action list"

definition valid_enum :: "enum \<Rightarrow> bool" where
  "valid_enum en = (\<forall>S. finite S \<longrightarrow> set (en S) = S \<and> distinct (en S))"

definition empties :: "board \<Rightarrow> nat" where
  "empties board = count_mark board EMPTY"

subsection \<open>Each move fills one empty cell\<close>

lemma row_actions_iff:
  "(i, j) \<in> set (row_actions k row) \<longleftrightarrow>
     i = int k \<and> 0 \<le> j \<and> nat j < length row \<and> row ! nat j = EMPTY"
  by (force simp: row_actions_def in_set_enumerate_eq)

lemma actions_iff:
  "(i, j) \<in> actions board \<longleftrightarrow>
     0 \<le> i \<and> 0 \<le> j \<and> nat i < length board \<and> nat j < length (board ! nat i)
       \<and> board ! nat i ! nat j = EMPTY"
  by (force simp: actions_def actions_list_def row_actions_iff in_set_enumerate_eq)

lemma finite_actions: "finite (actions board)"
  by (simp add: actions_def)

lemma count_list_update:
  "j < length xs \<Longrightarrow> xs ! j = c \<Longrightarrow> v \<noteq> c \<Longrightarrow> Suc (count_list (xs[j := v]) c) = count_list xs c"
proof (induction xs arbitrary: j)
  case Nil
  then show ?case by simp
next
  case (Cons x xs)
  then show ?case by (cases j) auto
qed

lemma count_list_update_other:
  "j < length xs \<Longrightarrow> xs ! j \<noteq> c \<Longrightarrow> v \<noteq> c \<Longrightarrow> count_list (xs[j := v]) c = count_list xs c"
proof (induction xs arbitrary: j)
  case Nil
  then show ?case by simp
next
  case (Cons x xs)
  then show ?case by (cases j) auto
qed

lemma count_list_update_new:
  "j < length xs \<Longrightarrow> xs ! j \<noteq> v \<Longrightarrow> count_list (xs[j := v]) v = Suc (count_list xs v)"
proof (induction xs arbitrary: j)
  case Nil
  then show ?case by simp
next
  case (Cons x xs)
  then show ?case by (cases j) auto
qed

lemma sum_list_map_update:
  "i < length xs \<Longrightarrow> sum_list (map f (xs[i := y])) + f (xs ! i) = sum_list (map f xs) + (f y :: nat)"
proof (induction xs arbitrary: i)
  case Nil
  then show ?case by simp
next
  case (Cons x xs)
  then show ?case by (cases i) auto
qed

lemma count_mark_update:
  assumes "i < length board"
  shows "count_mark (board[i := row]) c + count_list (board ! i) c = count_mark board c + count_list row c"
  using sum_list_map_update [OF assms, of "\<lambda>r. count_list r c" row]
  by (simp add: count_mark_def)

lemma result_Inr_iff:
  "result board a = Inr board' \<longleftrightarrow>
     a \<in> actions board \<and>
     board' = board[nat (fst a) := (board ! nat (fst a))[nat (snd a) := Some (player board)]]"
  by (cases a) (auto simp: result_def)

lemma result_empties:
  assumes "result board a = Inr board'"
  shows "Suc (empties board') = empties board"
proof -
  obtain i j where a: "a = (i, j)" by (cases a)
  from assms a have mem: "(i, j) \<in> actions board"
    and b': "board' = board[nat i := (board ! nat i)[nat j := Some (player board)]]"
    by (simp_all add: result_Inr_iff)
  from mem have i: "nat i < length board" and j: "nat j < length (board ! nat i)"
    and e: "board ! nat i ! nat j = EMPTY"
    by (simp_all add: actions_iff)
  have "Suc (count_list ((board ! nat i)[nat j := Some (player board)]) EMPTY)
          = count_list (board ! nat i) EMPTY"
    using j e by (intro count_list_update) simp_all
  with count_mark_update [OF i, of "(board ! nat i)[nat j := Some (player board)]" EMPTY]
  show ?thesis by (simp add: empties_def b')
qed

subsection \<open>max\_value and min\_value\<close>

text \<open>
  The two search functions call each other; each \<^verbatim>\<open>for\<close> loop is a function of
  its own over the actions still to visit, with the running \<^verbatim>\<open>v\<close> and
  \<^verbatim>\<open>best_action\<close>.  A \<^verbatim>\<open>break\<close> returns the pair at once.  An exception of a
  callee is passed on.
\<close>

function max_value :: "enum \<Rightarrow> board \<Rightarrow> error + (pyval \<times> action option)"
  and max_loop :: "enum \<Rightarrow> board \<Rightarrow> action list \<Rightarrow> pyval \<Rightarrow> action option \<Rightarrow> error + (pyval \<times> action option)"
  and min_value :: "enum \<Rightarrow> board \<Rightarrow> error + (pyval \<times> action option)"
  and min_loop :: "enum \<Rightarrow> board \<Rightarrow> action list \<Rightarrow> pyval \<Rightarrow> action option \<Rightarrow> error + (pyval \<times> action option)"
where
  "max_value en board =
     (case terminal board of
        Inl e \<Rightarrow> Inl e
      | Inr t \<Rightarrow>
          if t then (case utility board of Inl e \<Rightarrow> Inl e | Inr u \<Rightarrow> Inr (Fin u, None))
          else max_loop en board (en (actions board)) NegInf None)"
| "max_loop en board [] v best_action = Inr (v, best_action)"
| "max_loop en board (action # rest) v best_action =
     (case result board action of
        Inl e \<Rightarrow> Inl e
      | Inr board' \<Rightarrow>
          (case min_value en board' of
             Inl e \<Rightarrow> Inl e
           | Inr (min_val, _) \<Rightarrow>
               (let (v', best_action') =
                      (if gt min_val v then (min_val, Some action) else (v, best_action))
                in if v' = Fin 1 then Inr (v', best_action')
                   else max_loop en board rest v' best_action')))"
| "min_value en board =
     (case terminal board of
        Inl e \<Rightarrow> Inl e
      | Inr t \<Rightarrow>
          if t then (case utility board of Inl e \<Rightarrow> Inl e | Inr u \<Rightarrow> Inr (Fin u, None))
          else min_loop en board (en (actions board)) PosInf None)"
| "min_loop en board [] v best_action = Inr (v, best_action)"
| "min_loop en board (action # rest) v best_action =
     (case result board action of
        Inl e \<Rightarrow> Inl e
      | Inr board' \<Rightarrow>
          (case max_value en board' of
             Inl e \<Rightarrow> Inl e
           | Inr (max_val, _) \<Rightarrow>
               (let (v', best_action') =
                      (if lt max_val v then (max_val, Some action) else (v, best_action))
                in if v' = Fin (- 1) then Inr (v', best_action')
                   else min_loop en board rest v' best_action')))"
  by pat_completeness auto
termination
proof (relation "inv_image (less_than <*lex*> less_than <*lex*> less_than)
    (\<lambda>x. case x of
       Inl (Inl (en, b)) \<Rightarrow> (empties b, 1::nat, 0::nat)
     | Inl (Inr (en, b, as, v, ba)) \<Rightarrow> (empties b, 0, length as)
     | Inr (Inl (en, b)) \<Rightarrow> (empties b, 1, 0)
     | Inr (Inr (en, b, as, v, ba)) \<Rightarrow> (empties b, 0, length as))", goal_cases)
  case 1
  show ?case by (intro wf_inv_image wf_lex_prod wf_less_than)
next
  case 2 then show ?case by simp
next
  case 3 then show ?case using result_empties by fastforce
next
  case 4 then show ?case by simp
next
  case 5 then show ?case by simp
next
  case 6 then show ?case using result_empties by fastforce
next
  case 7 then show ?case by simp
qed


text \<open>
  The equations of the two entry points stay out of the simplifier: each one unfolds
  a whole level of the search.
\<close>

declare max_value.simps [simp del] min_value.simps [simp del]

definition minimax :: "enum \<Rightarrow> board \<Rightarrow> error + action option" where
  "minimax en board =
     (case terminal board of
        Inl e \<Rightarrow> Inl e
      | Inr t \<Rightarrow>
          if t then Inr None
          else (case (if player board = MarkX then max_value en board
                      else min_value en board) of
                  Inl e \<Rightarrow> Inl e
                | Inr (val, move) \<Rightarrow> Inr move))"

section \<open>Well-formed boards\<close>

lemma wf_board_rows:
  "wf_board board \<Longrightarrow> i < 3 \<Longrightarrow> length (board ! i) = 3"
  by (simp add: wf_board_def list_all_length)

lemma cell_at_wf:
  "wf_board board \<Longrightarrow> i < 3 \<Longrightarrow> j < 3 \<Longrightarrow> cell_at board i j = Inr (board ! i ! j)"
  by (simp add: cell_at_def wf_board_rows) (simp add: wf_board_def)

text \<open>
  On a 3 by 3 board no subscript fails, and \<^verbatim>\<open>winner\<close> is the first complete line in
  the order rows and columns 0, 1, 2, then the two diagonals.
\<close>

definition complete :: "board \<Rightarrow> nat \<times> nat \<Rightarrow> nat \<times> nat \<Rightarrow> nat \<times> nat \<Rightarrow> bool" where
  "complete board p q r =
     (board ! fst p ! snd p = board ! fst q ! snd q \<and>
      board ! fst q ! snd q = board ! fst r ! snd r \<and>
      board ! fst r ! snd r \<noteq> EMPTY)"

lemma line3_wf:
  assumes "wf_board board" "fst p < 3" "snd p < 3" "fst q < 3" "snd q < 3" "fst r < 3" "snd r < 3"
  shows "line3 board p q r = Inr (complete board p q r)"
  using assms by (simp add: line3_def cell_at_wf complete_def)

definition winner_wf :: "board \<Rightarrow> cell" where
  "winner_wf board =
     (if complete board (0, 0) (0, 1) (0, 2) then board ! 0 ! 0
      else if complete board (0, 0) (1, 0) (2, 0) then board ! 0 ! 0
      else if complete board (1, 0) (1, 1) (1, 2) then board ! 1 ! 0
      else if complete board (0, 1) (1, 1) (2, 1) then board ! 0 ! 1
      else if complete board (2, 0) (2, 1) (2, 2) then board ! 2 ! 0
      else if complete board (0, 2) (1, 2) (2, 2) then board ! 0 ! 2
      else if complete board (0, 0) (1, 1) (2, 2) then board ! 0 ! 0
      else if complete board (0, 2) (1, 1) (2, 0) then board ! 0 ! 2
      else None)"

lemma winner_eq_wf:
  assumes "wf_board board"
  shows "winner board = Inr (winner_wf board)"
proof -
  have loop: "winner_loop board [0, 1, 2] =
     (if complete board (0, 0) (0, 1) (0, 2) then Inr (Some (board ! 0 ! 0))
      else if complete board (0, 0) (1, 0) (2, 0) then Inr (Some (board ! 0 ! 0))
      else if complete board (1, 0) (1, 1) (1, 2) then Inr (Some (board ! 1 ! 0))
      else if complete board (0, 1) (1, 1) (2, 1) then Inr (Some (board ! 0 ! 1))
      else if complete board (2, 0) (2, 1) (2, 2) then Inr (Some (board ! 2 ! 0))
      else if complete board (0, 2) (1, 2) (2, 2) then Inr (Some (board ! 0 ! 2))
      else Inr None)"
    using assms by (simp add: line3_wf cell_at_wf)
  show ?thesis
    unfolding winner_def winner_wf_def loop
    using assms by (simp add: line3_wf cell_at_wf)
qed

lemma terminal_wf:
  "wf_board board \<Longrightarrow> terminal board = Inr (winner_wf board \<noteq> None \<or> board_full board)"
  by (simp add: terminal_def winner_eq_wf)

lemma utility_wf:
  "wf_board board \<Longrightarrow>
   utility board = Inr (if winner_wf board = Some MarkX then 1
                        else if winner_wf board = Some MarkO then - 1 else 0)"
  by (simp add: utility_def winner_eq_wf)

lemma board_full_wf:
  assumes "wf_board board"
  shows "board_full board \<longleftrightarrow> (\<forall>i<3. \<forall>j<3. board ! i ! j \<noteq> EMPTY)"
  using assms by (auto simp: board_full_def wf_board_def list_all_length)


subsection \<open>terminal and utility on well-formed boards\<close>

text \<open>
  C6.  On a well-formed board \<^verbatim>\<open>terminal\<close> returns \<open>True\<close> exactly when \<^verbatim>\<open>winner\<close>
  returns a player or all nine cells are non-empty, and \<open>False\<close> otherwise.
\<close>

theorem terminal_iff_winner_or_full:
  assumes "wf_board board"
  shows "terminal board =
           Inr ((\<exists>m. winner board = Inr (Some m)) \<or> (\<forall>i<3. \<forall>j<3. board ! i ! j \<noteq> EMPTY))"
proof -
  have "(\<exists>m. winner board = Inr (Some m)) \<longleftrightarrow> winner_wf board \<noteq> None"
    using assms by (simp add: winner_eq_wf)
  moreover have "board_full board \<longleftrightarrow> (\<forall>i<3. \<forall>j<3. board ! i ! j \<noteq> EMPTY)"
    using assms by (rule board_full_wf)
  ultimately show ?thesis
    using assms by (simp add: terminal_wf)
qed

theorem terminal_iff_winner_or_full_witness:
  "wf_board [[Some MarkX, Some MarkO, Some MarkX],
             [Some MarkO, Some MarkX, Some MarkO],
             [Some MarkO, Some MarkX, Some MarkO]]
   \<and> terminal [[Some MarkX, Some MarkO, Some MarkX],
               [Some MarkO, Some MarkX, Some MarkO],
               [Some MarkO, Some MarkX, Some MarkO]] = Inr True
   \<and> wf_board [[Some MarkX, EMPTY, EMPTY], [EMPTY, EMPTY, EMPTY], [EMPTY, EMPTY, EMPTY]]
   \<and> terminal [[Some MarkX, EMPTY, EMPTY], [EMPTY, EMPTY, EMPTY], [EMPTY, EMPTY, EMPTY]]
       = Inr False"
proof -
  let ?d = "[[Some MarkX, Some MarkO, Some MarkX],
             [Some MarkO, Some MarkX, Some MarkO],
             [Some MarkO, Some MarkX, Some MarkO]]"
  let ?e = "[[Some MarkX, EMPTY, EMPTY], [EMPTY, EMPTY, EMPTY], [EMPTY, EMPTY, EMPTY]]"
  have wd: "wf_board ?d" and we: "wf_board ?e"
    by (simp_all add: wf_board_def)
  have fd: "\<forall>i<3. \<forall>j<3. ?d ! i ! j \<noteq> EMPTY"
    by (simp add: less_Suc_eq numeral_3_eq_3 all_conj_distrib)
  have ne: "\<not> (\<forall>i<3. \<forall>j<3. ?e ! i ! j \<noteq> EMPTY)"
    by (auto intro!: exI[of _ 1])
  have nw: "\<not> (\<exists>m. winner ?e = Inr (Some m))"
    by (simp add: winner_eq_wf [OF we] winner_wf_def complete_def)
  from terminal_iff_winner_or_full [OF wd] fd have "terminal ?d = Inr True"
    by simp
  moreover from terminal_iff_winner_or_full [OF we] ne nw have "terminal ?e = Inr False"
    by simp
  ultimately show ?thesis using wd we by simp
qed

text \<open>
  C7.  On a board where \<^verbatim>\<open>terminal\<close> returns \<open>True\<close>, \<^verbatim>\<open>utility\<close> returns \<open>1\<close> when
  the winner is X, \<open>-1\<close> when it is O and \<open>0\<close> otherwise, and that last case is a
  full board without a winner.  On every well-formed board \<^verbatim>\<open>utility\<close> returns a
  value and raises nothing.
\<close>

theorem utility_of_terminal:
  "(terminal board = Inr True \<longrightarrow>
      (winner board = Inr (Some MarkX) \<longrightarrow> utility board = Inr 1) \<and>
      (winner board = Inr (Some MarkO) \<longrightarrow> utility board = Inr (- 1)) \<and>
      (winner board \<noteq> Inr (Some MarkX) \<and> winner board \<noteq> Inr (Some MarkO) \<longrightarrow>
         utility board = Inr 0 \<and> winner board = Inr EMPTY \<and> board_full board))
   \<and> (wf_board board \<longrightarrow> (\<exists>u. utility board = Inr u))"
proof (intro conjI impI)
  assume "wf_board board"
  then show "\<exists>u. utility board = Inr u"
    by (simp add: utility_wf)
next
  assume "terminal board = Inr True" "winner board = Inr (Some MarkX)"
  then show "utility board = Inr 1"
    by (simp add: utility_def)
next
  assume "terminal board = Inr True" "winner board = Inr (Some MarkO)"
  then show "utility board = Inr (- 1)"
    by (simp add: utility_def)
next
  assume t: "terminal board = Inr True"
    and w: "winner board \<noteq> Inr (Some MarkX) \<and> winner board \<noteq> Inr (Some MarkO)"
  from t obtain c where c: "winner board = Inr c"
    by (auto simp: terminal_def split: sum.splits)
  with w have "c = EMPTY"
    by (cases c) (auto intro: mark.exhaust)
  with c t show "utility board = Inr 0" "winner board = Inr EMPTY" "board_full board"
    by (simp_all add: utility_def terminal_def split: if_splits)
qed


theorem utility_of_terminal_witness:
  "terminal [[Some MarkX, Some MarkX, Some MarkX],
             [Some MarkO, Some MarkO, EMPTY],
             [EMPTY, EMPTY, EMPTY]] = Inr True
   \<and> winner [[Some MarkX, Some MarkX, Some MarkX],
             [Some MarkO, Some MarkO, EMPTY],
             [EMPTY, EMPTY, EMPTY]] = Inr (Some MarkX)
   \<and> wf_board [[Some MarkX, Some MarkX, Some MarkX],
               [Some MarkO, Some MarkO, EMPTY],
               [EMPTY, EMPTY, EMPTY]]
   \<and> utility [[Some MarkX, Some MarkX, Some MarkX],
               [Some MarkO, Some MarkO, EMPTY],
               [EMPTY, EMPTY, EMPTY]] = Inr 1"
proof -
  let ?b = "[[Some MarkX, Some MarkX, Some MarkX],
             [Some MarkO, Some MarkO, EMPTY],
             [EMPTY, EMPTY, EMPTY]]"
  have wf: "wf_board ?b"
    by (simp add: wf_board_def)
  have w: "winner ?b = Inr (Some MarkX)"
    by (simp add: winner_eq_wf [OF wf] winner_wf_def complete_def)
  have t: "terminal ?b = Inr True"
    by (simp add: terminal_def w)
  from utility_of_terminal [of ?b] t w have "utility ?b = Inr 1"
    by blast
  with wf w t show ?thesis by simp
qed

section \<open>Turn order\<close>

text \<open>
  A game from a board: the actions of a list applied one after the other with
  \<^verbatim>\<open>result\<close>, stopping at the first one that raises.
\<close>

fun play :: "board \<Rightarrow> action list \<Rightarrow> error + board" where
  "play board [] = Inr board"
| "play board (a # as) =
     (case result board a of Inl e \<Rightarrow> Inl e | Inr board' \<Rightarrow> play board' as)"

lemma result_count_player:
  assumes "result board a = Inr board'"
  shows "count_mark board' (Some (player board)) = Suc (count_mark board (Some (player board)))"
proof -
  obtain i j where a: "a = (i, j)" by (cases a)
  let ?row = "(board ! nat i)[nat j := Some (player board)]"
  from assms a have mem: "(i, j) \<in> actions board" and b': "board' = board[nat i := ?row]"
    by (simp_all add: result_Inr_iff)
  from mem have i: "nat i < length board" and j: "nat j < length (board ! nat i)"
    and e: "board ! nat i ! nat j = EMPTY"
    by (simp_all add: actions_iff)
  have "count_list ?row (Some (player board)) = Suc (count_list (board ! nat i) (Some (player board)))"
    using j e by (intro count_list_update_new) simp_all
  with count_mark_update [OF i, of ?row "Some (player board)"]
  show ?thesis by (simp add: b')
qed

lemma result_count_other:
  assumes "result board a = Inr board'" and "m \<noteq> player board"
  shows "count_mark board' (Some m) = count_mark board (Some m)"
proof -
  obtain i j where a: "a = (i, j)" by (cases a)
  let ?row = "(board ! nat i)[nat j := Some (player board)]"
  from assms a have mem: "(i, j) \<in> actions board" and b': "board' = board[nat i := ?row]"
    by (simp_all add: result_Inr_iff)
  from mem have i: "nat i < length board" and j: "nat j < length (board ! nat i)"
    and e: "board ! nat i ! nat j = EMPTY"
    by (simp_all add: actions_iff)
  have "count_list ?row (Some m) = count_list (board ! nat i) (Some m)"
    using j e assms(2) by (intro count_list_update_other) simp_all
  with count_mark_update [OF i, of ?row "Some m"]
  show ?thesis by (simp add: b')
qed

text \<open>The lead of X over O in marks placed: 0 when X is to move, 1 when O is.\<close>

definition balanced :: "board \<Rightarrow> nat \<Rightarrow> bool" where
  "balanced board k =
     (k \<le> 1 \<and> count_mark board (Some MarkX) = count_mark board (Some MarkO) + k)"

lemma balanced_player:
  "balanced board k \<Longrightarrow> player board = (if k = 0 then MarkX else MarkO)"
  by (auto simp: balanced_def player_def)

lemma balanced_result:
  assumes "balanced board k" and "result board a = Inr board'"
  shows "balanced board' (1 - k)"
proof (cases "k = 0")
  case True
  with assms(1) have p: "player board = MarkX" by (simp add: balanced_player)
  from result_count_player [OF assms(2)] result_count_other [OF assms(2), of MarkO] p
  show ?thesis using assms(1) True by (simp add: balanced_def)
next
  case False
  with assms(1) have k: "k = 1" by (simp add: balanced_def)
  with assms(1) have p: "player board = MarkO" by (simp add: balanced_player)
  from result_count_player [OF assms(2)] result_count_other [OF assms(2), of MarkX] p
  show ?thesis using assms(1) k by (simp add: balanced_def)
qed

lemma balanced_play:
  "balanced board k \<Longrightarrow> play board as = Inr board' \<Longrightarrow> balanced board' ((k + length as) mod 2)"
proof (induction as arbitrary: board k)
  case Nil
  then show ?case by (simp add: balanced_def)
next
  case (Cons a as)
  from Cons.prems(2) obtain b1 where r: "result board a = Inr b1" and p: "play b1 as = Inr board'"
    by (auto split: sum.splits)
  from balanced_result [OF Cons.prems(1) r] have "balanced b1 (1 - k)" .
  from Cons.IH [OF this p] have "balanced board' ((1 - k + length as) mod 2)" .
  moreover from Cons.prems(1) have "k \<le> 1" by (simp add: balanced_def)
  then have "(1 - k + length as) mod 2 = (k + length (a # as)) mod 2"
  proof (cases "k = 0")
    case True
    then show ?thesis by simp
  next
    case False
    with \<open>k \<le> 1\<close> have "k = 1" by simp
    then show ?thesis by simp
  qed
  ultimately show ?case by simp
qed

lemma balanced_initial: "balanced initial_state 0"
  by (simp add: balanced_def initial_state_def count_mark_def)

text \<open>
  C8.  Along every sequence of legal moves from \<^verbatim>\<open>initial_state()\<close> the player to
  move alternates: X on the initial board, X after an even number of moves, O after
  an odd number, and every further legal move flips it.
\<close>

theorem player_alternates:
  assumes "play initial_state as = Inr board"
  shows "player initial_state = MarkX
         \<and> player board = (if even (length as) then MarkX else MarkO)
         \<and> (\<forall>a board'. result board a = Inr board' \<longrightarrow> player board' \<noteq> player board)"
proof -
  from balanced_play [OF balanced_initial assms]
  have b: "balanced board (length as mod 2)" by simp
  have "player initial_state = MarkX"
    using balanced_player [OF balanced_initial] by simp
  moreover have "player board = (if even (length as) then MarkX else MarkO)"
    using balanced_player [OF b] by (simp add: even_iff_mod_2_eq_zero)
  moreover have "player board' \<noteq> player board" if "result board a = Inr board'" for a board'
    using balanced_player [OF balanced_result [OF b that]] balanced_player [OF b]
    by (auto split: if_splits)
  ultimately show ?thesis by blast
qed


lemmas board_eval =
  result_def actions_def actions_list_def row_actions_def player_def count_mark_def
  initial_state_def

theorem player_alternates_witness:
  "play initial_state [(1, 1), (0, 0), (2, 2)]
     = Inr [[Some MarkO, EMPTY, EMPTY], [EMPTY, Some MarkX, EMPTY], [EMPTY, EMPTY, Some MarkX]]
   \<and> player [[Some MarkO, EMPTY, EMPTY], [EMPTY, Some MarkX, EMPTY], [EMPTY, EMPTY, Some MarkX]]
       = MarkO"
proof -
  have p: "play initial_state [(1, 1), (0, 0), (2, 2)]
     = Inr [[Some MarkO, EMPTY, EMPTY], [EMPTY, Some MarkX, EMPTY], [EMPTY, EMPTY, Some MarkX]]"
    by (simp add: board_eval)
  from player_alternates [OF p] show ?thesis using p by simp
qed

section \<open>Correctness of the search\<close>

text \<open>The board that \<^verbatim>\<open>result\<close> returns when it does not raise.\<close>

definition move :: "board \<Rightarrow> action \<Rightarrow> board" where
  "move board a = board[nat (fst a) := (board ! nat (fst a))[nat (snd a) := Some (player board)]]"

lemma result_move: "a \<in> actions board \<Longrightarrow> result board a = Inr (move board a)"
  by (cases a) (simp add: result_def move_def)

lemma result_Inr_move: "result board a = Inr board' \<Longrightarrow> a \<in> actions board \<and> board' = move board a"
  by (simp add: result_Inr_iff move_def)

lemma wf_board_move: "wf_board board \<Longrightarrow> wf_board (move board a)"
proof -
  assume wf: "wf_board board"
  have "length (move board a ! n) = 3" if "n < 3" for n
  proof (cases "n = nat (fst a)")
    case True
    with wf that show ?thesis
      by (simp add: move_def wf_board_def list_all_length)
  next
    case False
    with wf that show ?thesis
      by (simp add: move_def wf_board_def list_all_length)
  qed
  with wf show ?thesis
    by (simp add: wf_board_def list_all_length move_def)
qed

text \<open>\<^verbatim>\<open>terminal\<close> and \<^verbatim>\<open>utility\<close> on a 3 by 3 board, where nothing raises.\<close>

definition term_wf :: "board \<Rightarrow> bool" where
  "term_wf board = (winner_wf board \<noteq> None \<or> board_full board)"

definition util_wf :: "board \<Rightarrow> int" where
  "util_wf board =
     (if winner_wf board = Some MarkX then 1 else if winner_wf board = Some MarkO then - 1 else 0)"

lemma terminal_term_wf: "wf_board board \<Longrightarrow> terminal board = Inr (term_wf board)"
  by (simp add: terminal_wf term_wf_def)

lemma utility_util_wf: "wf_board board \<Longrightarrow> utility board = Inr (util_wf board)"
  by (simp add: utility_wf util_wf_def)

lemma util_wf_bounds: "- 1 \<le> util_wf board" "util_wf board \<le> 1"
  by (simp_all add: util_wf_def)

lemma empties_0_full:
  assumes "empties board = 0"
  shows "board_full board"
proof -
  have "count_list row EMPTY = 0" if "row \<in> set board" for row
    using assms that by (auto simp: empties_def count_mark_def sum_list_eq_0_iff)
  then have "EMPTY \<notin> set row" if "row \<in> set board" for row
    using that by (simp add: count_list_0_iff)
  then show ?thesis
    by (auto simp: board_full_def list_all_iff) (metis not_None_eq)
qed

lemma not_full_actions:
  assumes "\<not> board_full board"
  shows "actions board \<noteq> {}"
proof -
  from assms obtain row where row: "row \<in> set board" "EMPTY \<in> set row"
    by (auto simp: board_full_def list_all_iff)
  then obtain i j where "i < length board" "board ! i = row" "j < length row" "row ! j = EMPTY"
    by (metis in_set_conv_nth)
  then have "(int i, int j) \<in> actions board"
    by (simp add: actions_iff)
  then show ?thesis by blast
qed

text \<open>The value of the game tree below a board, without pruning and without an order.\<close>

fun maxv :: "nat \<Rightarrow> board \<Rightarrow> int" and minv :: "nat \<Rightarrow> board \<Rightarrow> int" where
  "maxv 0 board = util_wf board"
| "maxv (Suc n) board =
     (if term_wf board then util_wf board
      else Max ((\<lambda>a. minv n (move board a)) ` actions board))"
| "minv 0 board = util_wf board"
| "minv (Suc n) board =
     (if term_wf board then util_wf board
      else Min ((\<lambda>a. maxv n (move board a)) ` actions board))"

lemma maxv_minv_bounds:
  "- 1 \<le> maxv n board \<and> maxv n board \<le> 1 \<and> - 1 \<le> minv n board \<and> minv n board \<le> 1"
proof (induction n arbitrary: board)
  case 0
  then show ?case by (simp add: util_wf_bounds)
next
  case (Suc n)
  show ?case
  proof (cases "term_wf board")
    case True
    then show ?thesis by (simp add: util_wf_bounds)
  next
    case False
    then have ne: "actions board \<noteq> {}"
      by (simp add: term_wf_def not_full_actions)
    have fin: "finite (actions board)" by (rule finite_actions)
    from ne obtain a where a: "a \<in> actions board" by blast
    from Suc.IH have k: "- 1 \<le> minv n (move board c)" "minv n (move board c) \<le> 1"
      "- 1 \<le> maxv n (move board c)" "maxv n (move board c) \<le> 1" for c
      by simp_all
    have "- 1 \<le> Max ((\<lambda>a. minv n (move board a)) ` actions board)"
      using ne fin a k(1) by (subst Max_ge_iff) auto
    moreover have "Max ((\<lambda>a. minv n (move board a)) ` actions board) \<le> 1"
      using ne fin k(2) by (subst Max_le_iff) auto
    moreover have "- 1 \<le> Min ((\<lambda>a. maxv n (move board a)) ` actions board)"
      using ne fin k(3) by (subst Min_ge_iff) auto
    moreover have "Min ((\<lambda>a. maxv n (move board a)) ` actions board) \<le> 1"
      using ne fin a k(4) by (subst Min_le_iff) auto
    ultimately show ?thesis
      using False by simp
  qed
qed


text \<open>
  The state of a loop after the actions of \<open>S\<close>: nothing seen yet, or the best
  action so far with its value.
\<close>

definition max_state :: "(action \<Rightarrow> int) \<Rightarrow> action set \<Rightarrow> pyval \<Rightarrow> action option \<Rightarrow> bool" where
  "max_state f S v best =
     ((S = {} \<and> v = NegInf \<and> best = None) \<or>
      (\<exists>a\<in>S. best = Some a \<and> v = Fin (f a) \<and> (\<forall>c\<in>S. f c \<le> f a)))"

definition min_state :: "(action \<Rightarrow> int) \<Rightarrow> action set \<Rightarrow> pyval \<Rightarrow> action option \<Rightarrow> bool" where
  "min_state f S v best =
     ((S = {} \<and> v = PosInf \<and> best = None) \<or>
      (\<exists>a\<in>S. best = Some a \<and> v = Fin (f a) \<and> (\<forall>c\<in>S. f a \<le> f c)))"

lemma max_state_step:
  assumes "max_state f S v best"
  shows "max_state f (insert a S)
           (if gt (Fin (f a)) v then Fin (f a) else v)
           (if gt (Fin (f a)) v then Some a else best)"
proof -
  from assms consider (first) "S = {}" "v = NegInf" "best = None"
    | (later) a0 where "a0 \<in> S" "best = Some a0" "v = Fin (f a0)" "\<forall>c\<in>S. f c \<le> f a0"
    unfolding max_state_def by blast
  then show ?thesis
  proof cases
    case first
    then show ?thesis by (simp add: max_state_def)
  next
    case later
    show ?thesis
    proof (cases "f a0 < f a")
      case True
      with later have "\<forall>c\<in>insert a S. f c \<le> f a" by fastforce
      with True later show ?thesis by (simp add: max_state_def)
    next
      case False
      with later have "\<forall>c\<in>insert a S. f c \<le> f a0" by fastforce
      with False later show ?thesis by (auto simp: max_state_def)
    qed
  qed
qed

lemma min_state_step:
  assumes "min_state f S v best"
  shows "min_state f (insert a S)
           (if lt (Fin (f a)) v then Fin (f a) else v)
           (if lt (Fin (f a)) v then Some a else best)"
proof -
  from assms consider (first) "S = {}" "v = PosInf" "best = None"
    | (later) a0 where "a0 \<in> S" "best = Some a0" "v = Fin (f a0)" "\<forall>c\<in>S. f a0 \<le> f c"
    unfolding min_state_def by blast
  then show ?thesis
  proof cases
    case first
    then show ?thesis by (simp add: min_state_def lt_def)
  next
    case later
    show ?thesis
    proof (cases "f a < f a0")
      case True
      with later have "\<forall>c\<in>insert a S. f a \<le> f c" by fastforce
      with True later show ?thesis by (simp add: min_state_def lt_def)
    next
      case False
      with later have "\<forall>c\<in>insert a S. f a0 \<le> f c" by fastforce
      with False later show ?thesis by (auto simp: min_state_def lt_def)
    qed
  qed
qed

lemma max_state_top:
  assumes "max_state f S (Fin 1) best" and "\<forall>c\<in>T. f c \<le> 1"
  shows "max_state f (S \<union> T) (Fin 1) best"
  using assms unfolding max_state_def by auto

lemma min_state_bottom:
  assumes "min_state f S (Fin (- 1)) best" and "\<forall>c\<in>T. - 1 \<le> f c"
  shows "min_state f (S \<union> T) (Fin (- 1)) best"
  using assms unfolding min_state_def by auto

lemma max_loop_Cons:
  assumes "result board a = Inr board'" and "min_value en board' = Inr (w, m)"
  shows "max_loop en board (a # as) v best =
     (if (if gt w v then w else v) = Fin 1
      then Inr (if gt w v then w else v, if gt w v then Some a else best)
      else max_loop en board as (if gt w v then w else v) (if gt w v then Some a else best))"
  using assms by (cases "gt w v") auto

lemma min_loop_Cons:
  assumes "result board a = Inr board'" and "max_value en board' = Inr (w, m)"
  shows "min_loop en board (a # as) v best =
     (if (if lt w v then w else v) = Fin (- 1)
      then Inr (if lt w v then w else v, if lt w v then Some a else best)
      else min_loop en board as (if lt w v then w else v) (if lt w v then Some a else best))"
  using assms by (cases "lt w v") auto

lemma max_loop_spec:
  assumes "\<forall>a\<in>set as. result board a = Inr (move board a) \<and>
             (\<exists>m. min_value en (move board a) = Inr (Fin (f a), m))"
    and "\<forall>a\<in>set as. f a \<le> 1"
    and "max_state f S v best"
    and "v \<noteq> Fin 1"
  shows "\<exists>v' best'. max_loop en board as v best = Inr (v', best') \<and>
           max_state f (S \<union> set as) v' best'"
  using assms
proof (induction as arbitrary: S v best)
  case Nil
  then show ?case by simp
next
  case (Cons a as)
  let ?v = "if gt (Fin (f a)) v then Fin (f a) else v"
  let ?b = "if gt (Fin (f a)) v then Some a else best"
  from Cons.prems(1) obtain m where r: "result board a = Inr (move board a)"
    and mv: "min_value en (move board a) = Inr (Fin (f a), m)"
    by auto
  have unfold: "max_loop en board (a # as) v best =
      (if ?v = Fin 1 then Inr (?v, ?b) else max_loop en board as ?v ?b)"
    by (rule max_loop_Cons [OF r mv])
  have st: "max_state f (insert a S) ?v ?b"
    using Cons.prems(3) by (rule max_state_step)
  show ?case
  proof (cases "?v = Fin 1")
    case True
    with st have "max_state f (insert a S) (Fin 1) ?b" by simp
    from max_state_top [OF this, of "set as"] Cons.prems(2)
    have "max_state f (S \<union> set (a # as)) (Fin 1) ?b" by simp
    with True unfold show ?thesis by simp
  next
    case False
    from Cons.prems(1,2) have
      "\<forall>a\<in>set as. result board a = Inr (move board a) \<and>
             (\<exists>m. min_value en (move board a) = Inr (Fin (f a), m))"
      "\<forall>a\<in>set as. f a \<le> 1"
      by simp_all
    from Cons.IH [OF this st False] False unfold show ?thesis by simp
  qed
qed

lemma min_loop_spec:
  assumes "\<forall>a\<in>set as. result board a = Inr (move board a) \<and>
             (\<exists>m. max_value en (move board a) = Inr (Fin (f a), m))"
    and "\<forall>a\<in>set as. - 1 \<le> f a"
    and "min_state f S v best"
    and "v \<noteq> Fin (- 1)"
  shows "\<exists>v' best'. min_loop en board as v best = Inr (v', best') \<and>
           min_state f (S \<union> set as) v' best'"
  using assms
proof (induction as arbitrary: S v best)
  case Nil
  then show ?case by simp
next
  case (Cons a as)
  let ?v = "if lt (Fin (f a)) v then Fin (f a) else v"
  let ?b = "if lt (Fin (f a)) v then Some a else best"
  from Cons.prems(1) obtain m where r: "result board a = Inr (move board a)"
    and mv: "max_value en (move board a) = Inr (Fin (f a), m)"
    by auto
  have unfold: "min_loop en board (a # as) v best =
      (if ?v = Fin (- 1) then Inr (?v, ?b) else min_loop en board as ?v ?b)"
    by (rule min_loop_Cons [OF r mv])
  have st: "min_state f (insert a S) ?v ?b"
    using Cons.prems(3) by (rule min_state_step)
  show ?case
  proof (cases "?v = Fin (- 1)")
    case True
    with st have "min_state f (insert a S) (Fin (- 1)) ?b" by simp
    from min_state_bottom [OF this, of "set as"] Cons.prems(2)
    have "min_state f (S \<union> set (a # as)) (Fin (- 1)) ?b" by simp
    with True unfold show ?thesis by simp
  next
    case False
    from Cons.prems(1,2) have
      "\<forall>a\<in>set as. result board a = Inr (move board a) \<and>
             (\<exists>m. max_value en (move board a) = Inr (Fin (f a), m))"
      "\<forall>a\<in>set as. - 1 \<le> f a"
      by simp_all
    from Cons.IH [OF this st False] False unfold show ?thesis by simp
  qed
qed


text \<open>
  What \<^verbatim>\<open>max_value\<close> and \<^verbatim>\<open>min_value\<close> return on a board with \<open>n\<close> empty cells:
  the value of the tree, and an action that reaches it (none on a terminal board).
\<close>

definition max_answer :: "nat \<Rightarrow> board \<Rightarrow> pyval \<times> action option \<Rightarrow> bool" where
  "max_answer n board r =
     (fst r = Fin (maxv n board) \<and>
      (if term_wf board then snd r = None
       else \<exists>a\<in>actions board. snd r = Some a \<and> minv (n - 1) (move board a) = maxv n board))"

definition min_answer :: "nat \<Rightarrow> board \<Rightarrow> pyval \<times> action option \<Rightarrow> bool" where
  "min_answer n board r =
     (fst r = Fin (minv n board) \<and>
      (if term_wf board then snd r = None
       else \<exists>a\<in>actions board. snd r = Some a \<and> maxv (n - 1) (move board a) = minv n board))"

lemma max_value_terminal:
  assumes "wf_board board" and "term_wf board"
  shows "max_value en board = Inr (Fin (util_wf board), None)"
    and "min_value en board = Inr (Fin (util_wf board), None)"
  using assms
  by (simp_all add: max_value.simps min_value.simps terminal_term_wf utility_util_wf)

lemma max_value_loop:
  assumes "wf_board board" and "\<not> term_wf board"
  shows "max_value en board = max_loop en board (en (actions board)) NegInf None"
    and "min_value en board = min_loop en board (en (actions board)) PosInf None"
  using assms
  by (simp_all add: max_value.simps min_value.simps terminal_term_wf)

lemma search_correct:
  assumes en: "valid_enum en"
  shows "wf_board board \<Longrightarrow> empties board = n \<Longrightarrow>
           (\<exists>r. max_value en board = Inr r \<and> max_answer n board r) \<and>
           (\<exists>r. min_value en board = Inr r \<and> min_answer n board r)"
proof (induction n arbitrary: board)
  case 0
  then have "term_wf board"
    by (simp add: term_wf_def empties_0_full)
  with 0 show ?case
    by (simp add: max_value_terminal max_answer_def min_answer_def)
next
  case (Suc n)
  show ?case
  proof (cases "term_wf board")
    case True
    with Suc.prems show ?thesis
      by (simp add: max_value_terminal max_answer_def min_answer_def)
  next
    case False
    let ?A = "actions board"
    let ?fmax = "\<lambda>a. minv n (move board a)"
    let ?fmin = "\<lambda>a. maxv n (move board a)"
    have fin: "finite ?A" by (rule finite_actions)
    with en have set_en: "set (en ?A) = ?A"
      by (simp add: valid_enum_def)
    from False have ne: "?A \<noteq> {}"
      by (simp add: term_wf_def not_full_actions)
    have kid: "wf_board (move board a) \<and> empties (move board a) = n \<and>
               result board a = Inr (move board a)" if "a \<in> ?A" for a
    proof -
      from that have r: "result board a = Inr (move board a)" by (rule result_move)
      from result_empties [OF r] Suc.prems(2) have "empties (move board a) = n" by simp
      with r Suc.prems(1) show ?thesis by (simp add: wf_board_move)
    qed
    have kids_min: "\<forall>a\<in>set (en ?A). result board a = Inr (move board a) \<and>
             (\<exists>m. min_value en (move board a) = Inr (Fin (?fmax a), m))"
    proof
      fix a assume "a \<in> set (en ?A)"
      with set_en have a: "a \<in> ?A" by simp
      from kid [OF a] Suc.IH [of "move board a"]
      obtain r where "min_value en (move board a) = Inr r" "min_answer n (move board a) r"
        by blast
      then have "min_value en (move board a) = Inr (Fin (?fmax a), snd r)"
        by (cases r) (simp add: min_answer_def)
      with kid [OF a] show "result board a = Inr (move board a) \<and>
             (\<exists>m. min_value en (move board a) = Inr (Fin (?fmax a), m))"
        by blast
    qed
    have kids_max: "\<forall>a\<in>set (en ?A). result board a = Inr (move board a) \<and>
             (\<exists>m. max_value en (move board a) = Inr (Fin (?fmin a), m))"
    proof
      fix a assume "a \<in> set (en ?A)"
      with set_en have a: "a \<in> ?A" by simp
      from kid [OF a] Suc.IH [of "move board a"]
      obtain r where "max_value en (move board a) = Inr r" "max_answer n (move board a) r"
        by blast
      then have "max_value en (move board a) = Inr (Fin (?fmin a), snd r)"
        by (cases r) (simp add: max_answer_def)
      with kid [OF a] show "result board a = Inr (move board a) \<and>
             (\<exists>m. max_value en (move board a) = Inr (Fin (?fmin a), m))"
        by blast
    qed
    have bmax: "\<forall>a\<in>set (en ?A). ?fmax a \<le> 1"
      using maxv_minv_bounds by blast
    have bmin: "\<forall>a\<in>set (en ?A). - 1 \<le> ?fmin a"
      using maxv_minv_bounds by blast
    have "max_state ?fmax {} NegInf None"
      by (simp add: max_state_def)
    from max_loop_spec [OF kids_min bmax this] set_en
    obtain v1 b1 where l1: "max_loop en board (en ?A) NegInf None = Inr (v1, b1)"
      and s1: "max_state ?fmax ?A v1 b1"
      by auto
    from s1 ne obtain a1 where a1: "a1 \<in> ?A" "b1 = Some a1" "v1 = Fin (?fmax a1)"
      "\<forall>c\<in>?A. ?fmax c \<le> ?fmax a1"
      unfolding max_state_def by blast
    have m1: "Max (?fmax ` ?A) = ?fmax a1"
      using fin a1(1,4) by (intro Max_eqI) auto
    have "min_state ?fmin {} PosInf None"
      by (simp add: min_state_def)
    from min_loop_spec [OF kids_max bmin this] set_en
    obtain v2 b2 where l2: "min_loop en board (en ?A) PosInf None = Inr (v2, b2)"
      and s2: "min_state ?fmin ?A v2 b2"
      by auto
    from s2 ne obtain a2 where a2: "a2 \<in> ?A" "b2 = Some a2" "v2 = Fin (?fmin a2)"
      "\<forall>c\<in>?A. ?fmin a2 \<le> ?fmin c"
      unfolding min_state_def by blast
    have m2: "Min (?fmin ` ?A) = ?fmin a2"
      using fin a2(1,4) by (intro Min_eqI) auto
    have "max_answer (Suc n) board (v1, b1)"
      using False a1 m1 by (simp add: max_answer_def)
    moreover have "min_answer (Suc n) board (v2, b2)"
      using False a2 m2 by (simp add: min_answer_def)
    ultimately show ?thesis
      using max_value_loop [OF Suc.prems(1) False, of en] l1 l2 by simp
  qed
qed

section \<open>What the search returns\<close>

lemma valid_enum_sorted: "valid_enum sorted_list_of_set"
  by (simp add: valid_enum_def)

lemma max_value_Fin:
  assumes "valid_enum en" and "wf_board board"
  shows "\<exists>m. max_value en board = Inr (Fin (maxv (empties board) board), m)"
    and "\<exists>m. min_value en board = Inr (Fin (minv (empties board) board), m)"
proof -
  from search_correct [OF assms refl]
  obtain r1 r2 where "max_value en board = Inr r1" "max_answer (empties board) board r1"
    "min_value en board = Inr r2" "min_answer (empties board) board r2"
    by blast
  then show "\<exists>m. max_value en board = Inr (Fin (maxv (empties board) board), m)"
    and "\<exists>m. min_value en board = Inr (Fin (minv (empties board) board), m)"
    by (cases r1; cases r2; simp add: max_answer_def min_answer_def)+
qed

lemma minimax_wf:
  assumes "valid_enum en" and "wf_board board"
  shows "if term_wf board then minimax en board = Inr None
         else \<exists>a\<in>actions board. minimax en board = Inr (Some a)"
proof (cases "term_wf board")
  case True
  with assms show ?thesis
    by (simp add: minimax_def terminal_term_wf)
next
  case False
  from search_correct [OF assms refl]
  obtain r1 r2 where r: "max_value en board = Inr r1" "max_answer (empties board) board r1"
    "min_value en board = Inr r2" "min_answer (empties board) board r2"
    by blast
  with False obtain a1 a2 where "a1 \<in> actions board" "snd r1 = Some a1"
    "a2 \<in> actions board" "snd r2 = Some a2"
    by (auto simp: max_answer_def min_answer_def)
  with r False assms show ?thesis
    by (cases r1; cases r2) (simp add: minimax_def terminal_term_wf)
qed

text \<open>
  C3.  On a well-formed board, whatever the iteration order, \<^verbatim>\<open>minimax\<close> returns
  \<open>None\<close> exactly when \<^verbatim>\<open>terminal\<close> is true, and on every other board it returns
  an action, one of \<^verbatim>\<open>actions(board)\<close>.
\<close>

theorem minimax_None_iff_terminal:
  assumes "valid_enum en" and "wf_board board"
  shows "(minimax en board = Inr None \<longleftrightarrow> terminal board = Inr True) \<and>
         (terminal board \<noteq> Inr True \<longrightarrow>
            terminal board = Inr False \<and>
            (\<exists>a. minimax en board = Inr (Some a) \<and> a \<in> actions board))"
proof (cases "term_wf board")
  case True
  with minimax_wf [OF assms] assms(2) show ?thesis
    by (simp add: terminal_term_wf)
next
  case False
  with minimax_wf [OF assms] obtain a where "a \<in> actions board" "minimax en board = Inr (Some a)"
    by auto
  with False assms(2) show ?thesis
    by (simp add: terminal_term_wf)
qed

theorem minimax_None_iff_terminal_witness:
  "valid_enum sorted_list_of_set
   \<and> wf_board [[Some MarkX, Some MarkO, Some MarkX],
               [Some MarkO, Some MarkX, Some MarkO],
               [Some MarkO, Some MarkX, Some MarkO]]
   \<and> minimax sorted_list_of_set
        [[Some MarkX, Some MarkO, Some MarkX],
         [Some MarkO, Some MarkX, Some MarkO],
         [Some MarkO, Some MarkX, Some MarkO]] = Inr None
   \<and> wf_board initial_state
   \<and> (\<exists>a. minimax sorted_list_of_set initial_state = Inr (Some a))"
proof -
  let ?d = "[[Some MarkX, Some MarkO, Some MarkX],
             [Some MarkO, Some MarkX, Some MarkO],
             [Some MarkO, Some MarkX, Some MarkO]]"
  have wd: "wf_board ?d" and wi: "wf_board initial_state"
    by (simp_all add: wf_board_def initial_state_def)
  have td: "terminal ?d = Inr True"
    by (simp add: terminal_wf [OF wd] board_full_def)
  have "winner_wf initial_state = None" "\<not> board_full initial_state"
    by (simp_all add: initial_state_def winner_wf_def complete_def board_full_def)
  then have ti: "terminal initial_state \<noteq> Inr True"
    by (simp add: terminal_wf [OF wi])
  from minimax_None_iff_terminal [OF valid_enum_sorted wd] td
  have "minimax sorted_list_of_set ?d = Inr None" by simp
  moreover from minimax_None_iff_terminal [OF valid_enum_sorted wi] ti
  have "\<exists>a. minimax sorted_list_of_set initial_state = Inr (Some a)" by blast
  ultimately show ?thesis
    using wd wi valid_enum_sorted by simp
qed

text \<open>
  C10.  On a well-formed board the value returned by \<^verbatim>\<open>max_value\<close> and by
  \<^verbatim>\<open>min_value\<close> is one of the integers \<open>-1\<close>, \<open>0\<close>, \<open>1\<close>, never one of the two
  infinite initial bounds: a board that is not terminal has an action to try.
\<close>

theorem search_value_range:
  assumes "valid_enum en" and "wf_board board"
  shows "(\<exists>v m. max_value en board = Inr (Fin v, m) \<and> v \<in> {- 1, 0, 1}) \<and>
         (\<exists>v m. min_value en board = Inr (Fin v, m) \<and> v \<in> {- 1, 0, 1}) \<and>
         (terminal board = Inr False \<longrightarrow> actions board \<noteq> {})"
proof -
  let ?n = "empties board"
  from maxv_minv_bounds [of ?n board]
  have "maxv ?n board \<in> {- 1, 0, 1}" and "minv ?n board \<in> {- 1, 0, 1}"
    by auto
  moreover have "actions board \<noteq> {}" if "terminal board = Inr False"
    using that assms(2) by (simp add: terminal_term_wf term_wf_def not_full_actions)
  ultimately show ?thesis
    using max_value_Fin [OF assms] by blast
qed

theorem search_value_range_witness:
  "valid_enum sorted_list_of_set \<and> wf_board initial_state
   \<and> (\<exists>v m. max_value sorted_list_of_set initial_state = Inr (Fin v, m) \<and> v \<in> {- 1, 0, 1})"
proof -
  have wi: "wf_board initial_state"
    by (simp add: wf_board_def initial_state_def)
  from search_value_range [OF valid_enum_sorted wi] valid_enum_sorted wi
  show ?thesis by blast
qed

section \<open>Termination and recursion depth\<close>

text \<open>
  The recursive calls of the search: \<^verbatim>\<open>max_value\<close> and \<^verbatim>\<open>min_value\<close> on a board
  that is not terminal call each other on \<^verbatim>\<open>result(board, action)\<close> for actions of
  the loop (all of them, when no \<^verbatim>\<open>break\<close> cuts the loop short).
\<close>

definition search_call :: "enum \<Rightarrow> board \<Rightarrow> board \<Rightarrow> bool" where
  "search_call en board board' =
     (terminal board = Inr False \<and>
      (\<exists>a\<in>set (en (actions board)). result board a = Inr board'))"

lemma empties_le_9:
  assumes "wf_board board"
  shows "empties board \<le> 9"
proof -
  from assms obtain r0 r1 r2 where b: "board = [r0, r1, r2]"
    and l: "length r0 = 3" "length r1 = 3" "length r2 = 3"
    by (auto simp: wf_board_def length_Suc_conv numeral_3_eq_3)
  have "count_list r EMPTY \<le> length r" for r :: "cell list"
    by (rule count_le_length)
  from this [of r0] this [of r1] this [of r2] l show ?thesis
    by (simp add: b empties_def count_mark_def)
qed

lemma search_call_empties:
  assumes "search_call en board board'"
  shows "Suc (empties board') = empties board"
  using assms result_empties by (auto simp: search_call_def)

lemma search_call_wf:
  assumes "search_call en board board'" and "wf_board board"
  shows "wf_board board'"
  using assms result_Inr_move wf_board_move by (fastforce simp: search_call_def)

lemma search_chain_empties:
  "(search_call en ^^ n) board board' \<Longrightarrow> empties board' + n = empties board"
proof (induction n arbitrary: board')
  case 0
  then show ?case by simp
next
  case (Suc n)
  then obtain mid where "(search_call en ^^ n) board mid" "search_call en mid board'"
    by auto
  with Suc.IH [of mid] search_call_empties [of en mid board'] show ?case
    by simp
qed

text \<open>
  C9.  On a well-formed board \<^verbatim>\<open>max_value\<close>, \<^verbatim>\<open>min_value\<close> and \<^verbatim>\<open>minimax\<close> run to
  completion and return a value, whatever the iteration order: every recursive call
  is on a well-formed board with strictly fewer empty cells, and no chain of nested
  calls is longer than 9.
\<close>

theorem search_terminates:
  assumes "valid_enum en" and "wf_board board"
  shows "(\<exists>r. max_value en board = Inr r) \<and>
         (\<exists>r. min_value en board = Inr r) \<and>
         (\<exists>m. minimax en board = Inr m) \<and>
         (\<forall>board'. search_call en board board' \<longrightarrow>
            wf_board board' \<and> empties board' < empties board) \<and>
         (\<forall>n board'. (search_call en ^^ n) board board' \<longrightarrow> n \<le> 9)"
proof (intro conjI allI impI)
  from max_value_Fin [OF assms]
  show "\<exists>r. max_value en board = Inr r" and "\<exists>r. min_value en board = Inr r"
    by blast+
next
  from minimax_wf [OF assms] show "\<exists>m. minimax en board = Inr m"
    by (auto split: if_splits)
next
  fix board' assume c: "search_call en board board'"
  from search_call_wf [OF c assms(2)] show "wf_board board'" .
  from search_call_empties [OF c] show "empties board' < empties board" by simp
next
  fix n board' assume "(search_call en ^^ n) board board'"
  from search_chain_empties [OF this] empties_le_9 [OF assms(2)] show "n \<le> 9"
    by simp
qed

theorem search_terminates_witness:
  "valid_enum sorted_list_of_set \<and> wf_board initial_state
   \<and> (\<exists>r. max_value sorted_list_of_set initial_state = Inr r)
   \<and> (\<exists>m. minimax sorted_list_of_set initial_state = Inr m)
   \<and> search_call sorted_list_of_set initial_state
         [[Some MarkX, EMPTY, EMPTY], [EMPTY, EMPTY, EMPTY], [EMPTY, EMPTY, EMPTY]]
   \<and> empties [[Some MarkX, EMPTY, EMPTY], [EMPTY, EMPTY, EMPTY], [EMPTY, EMPTY, EMPTY]]
       < empties initial_state"
proof -
  let ?b = "[[Some MarkX, EMPTY, EMPTY], [EMPTY, EMPTY, EMPTY], [EMPTY, EMPTY, EMPTY]]"
  have wi: "wf_board initial_state"
    by (simp add: wf_board_def initial_state_def)
  have "winner_wf initial_state = None" "\<not> board_full initial_state"
    by (simp_all add: initial_state_def winner_wf_def complete_def board_full_def)
  then have t: "terminal initial_state = Inr False"
    by (simp add: terminal_wf [OF wi])
  have r: "result initial_state (0, 0) = Inr ?b"
    by (simp add: board_eval)
  then have "(0, 0) \<in> actions initial_state"
    by (simp add: result_Inr_iff)
  then have "(0, 0) \<in> set (sorted_list_of_set (actions initial_state))"
    by (simp add: finite_actions)
  with t r have c: "search_call sorted_list_of_set initial_state ?b"
    unfolding search_call_def by blast
  from search_terminates [OF valid_enum_sorted wi] valid_enum_sorted wi c
  show ?thesis by blast
qed

section \<open>Bounds on the value of a position, by evaluation\<close>

fun other :: "mark \<Rightarrow> mark" where
  "other MarkX = MarkO"
| "other MarkO = MarkX"

definition place :: "mark \<Rightarrow> board \<Rightarrow> action \<Rightarrow> board" where
  "place m board a = board[nat (fst a) := (board ! nat (fst a))[nat (snd a) := Some m]]"

text \<open>The nine positions: centre, corners, edges.\<close>

definition priority :: "action list" where
  "priority = [(1, 1), (0, 0), (0, 2), (2, 0), (2, 2), (0, 1), (1, 0), (1, 2), (2, 1)]"

definition succs :: "mark \<Rightarrow> board \<Rightarrow> board list" where
  "succs m board = map (place m board) (filter (\<lambda>a. a \<in> actions board) priority)"

text \<open>The score of a finished game, or \<open>None\<close> while it goes on.\<close>

definition outcome :: "board \<Rightarrow> int option" where
  "outcome board = (if term_wf board then Some (util_wf board) else None)"

fun all_lazy :: "('a \<Rightarrow> bool) \<Rightarrow> 'a list \<Rightarrow> bool" where
  "all_lazy P [] = True"
| "all_lazy P (x # xs) = (if P x then all_lazy P xs else False)"

fun ex_lazy :: "('a \<Rightarrow> bool) \<Rightarrow> 'a list \<Rightarrow> bool" where
  "ex_lazy P [] = False"
| "ex_lazy P (x # xs) = (if P x then True else ex_lazy P xs)"

text \<open>
  \<open>max_le n u m board\<close>: with \<open>m\<close> to move and at most \<open>n\<close> moves left, the
  maximiser gets at most \<open>u\<close>; and the three companions.
\<close>

fun max_le :: "nat \<Rightarrow> int \<Rightarrow> mark \<Rightarrow> board \<Rightarrow> bool"
  and min_le :: "nat \<Rightarrow> int \<Rightarrow> mark \<Rightarrow> board \<Rightarrow> bool"
where
  "max_le 0 u m board = (case outcome board of Some x \<Rightarrow> x \<le> u | None \<Rightarrow> False)"
| "max_le (Suc n) u m board =
     (case outcome board of
        Some x \<Rightarrow> x \<le> u
      | None \<Rightarrow> all_lazy (min_le n u (other m)) (succs m board))"
| "min_le 0 u m board = (case outcome board of Some x \<Rightarrow> x \<le> u | None \<Rightarrow> False)"
| "min_le (Suc n) u m board =
     (case outcome board of
        Some x \<Rightarrow> x \<le> u
      | None \<Rightarrow> ex_lazy (max_le n u (other m)) (succs m board))"

fun max_ge :: "nat \<Rightarrow> int \<Rightarrow> mark \<Rightarrow> board \<Rightarrow> bool"
  and min_ge :: "nat \<Rightarrow> int \<Rightarrow> mark \<Rightarrow> board \<Rightarrow> bool"
where
  "max_ge 0 u m board = (case outcome board of Some x \<Rightarrow> u \<le> x | None \<Rightarrow> False)"
| "max_ge (Suc n) u m board =
     (case outcome board of
        Some x \<Rightarrow> u \<le> x
      | None \<Rightarrow> ex_lazy (min_ge n u (other m)) (succs m board))"
| "min_ge 0 u m board = (case outcome board of Some x \<Rightarrow> u \<le> x | None \<Rightarrow> False)"
| "min_ge (Suc n) u m board =
     (case outcome board of
        Some x \<Rightarrow> u \<le> x
      | None \<Rightarrow> all_lazy (max_ge n u (other m)) (succs m board))"

lemma all_lazy_iff: "all_lazy P xs \<longleftrightarrow> (\<forall>x\<in>set xs. P x)"
  by (induction xs) auto

lemma ex_lazy_iff: "ex_lazy P xs \<longleftrightarrow> (\<exists>x\<in>set xs. P x)"
  by (induction xs) auto

lemma move_place: "move board a = place (player board) board a"
  by (simp add: move_def place_def)

lemma actions_priority:
  assumes "wf_board board" and "a \<in> actions board"
  shows "a \<in> set priority"
proof -
  obtain i j where a: "a = (i, j)" by (cases a)
  with assms have "0 \<le> i" "nat i < 3" "0 \<le> j" "nat j < 3"
    by (auto simp: actions_iff wf_board_def list_all_length)
  then have "i \<in> {0, 1, 2}" "j \<in> {0, 1, 2}" by auto
  with a show ?thesis by (auto simp: priority_def)
qed

lemma set_succs:
  assumes "wf_board board"
  shows "set (succs m board) = place m board ` actions board"
  using actions_priority [OF assms] by (auto simp: succs_def)

lemma player_move:
  assumes "balanced board k" and "a \<in> actions board"
  shows "player (move board a) = other (player board)"
    and "balanced (move board a) (1 - k)"
proof -
  from balanced_result [OF assms(1) result_move [OF assms(2)]]
  show b: "balanced (move board a) (1 - k)" .
  from assms(1) have "k \<le> 1" by (simp add: balanced_def)
  with balanced_player [OF b] balanced_player [OF assms(1)]
  show "player (move board a) = other (player board)"
    by (cases "k = 0") simp_all
qed

lemma le_sound:
  "wf_board board \<Longrightarrow> balanced board k \<Longrightarrow>
     (max_le n u (player board) board \<longrightarrow> maxv n board \<le> u) \<and>
     (min_le n u (player board) board \<longrightarrow> minv n board \<le> u)"
proof (induction n arbitrary: board k)
  case 0
  then show ?case by (simp add: outcome_def split: if_splits)
next
  case (Suc n)
  show ?case
  proof (cases "term_wf board")
    case True
    then show ?thesis by (simp add: outcome_def)
  next
    case False
    let ?A = "actions board"
    have fin: "finite ?A" by (rule finite_actions)
    from False have ne: "?A \<noteq> {}"
      by (simp add: term_wf_def not_full_actions)
    have kid: "(min_le n u (other (player board)) (place (player board) board a)
                 \<longrightarrow> minv n (move board a) \<le> u) \<and>
               (max_le n u (other (player board)) (place (player board) board a)
                 \<longrightarrow> maxv n (move board a) \<le> u)" if "a \<in> ?A" for a
      using Suc.IH [OF wf_board_move [OF Suc.prems(1)] player_move(2) [OF Suc.prems(2) that]]
        player_move(1) [OF Suc.prems(2) that]
      by (simp add: move_place)
    have "maxv (Suc n) board \<le> u" if "max_le (Suc n) u (player board) board"
    proof -
      from that False have "\<forall>a\<in>?A. min_le n u (other (player board)) (place (player board) board a)"
        by (simp add: outcome_def all_lazy_iff set_succs [OF Suc.prems(1)])
      with kid have "\<forall>a\<in>?A. minv n (move board a) \<le> u" by blast
      with fin ne False show ?thesis by simp
    qed
    moreover have "minv (Suc n) board \<le> u" if "min_le (Suc n) u (player board) board"
    proof -
      from that False have "\<exists>a\<in>?A. max_le n u (other (player board)) (place (player board) board a)"
        by (simp add: outcome_def ex_lazy_iff set_succs [OF Suc.prems(1)])
      with kid have "\<exists>a\<in>?A. maxv n (move board a) \<le> u" by blast
      with fin ne False show ?thesis by (simp add: Min_le_iff)
    qed
    ultimately show ?thesis by blast
  qed
qed

lemma ge_sound:
  "wf_board board \<Longrightarrow> balanced board k \<Longrightarrow>
     (max_ge n u (player board) board \<longrightarrow> u \<le> maxv n board) \<and>
     (min_ge n u (player board) board \<longrightarrow> u \<le> minv n board)"
proof (induction n arbitrary: board k)
  case 0
  then show ?case by (simp add: outcome_def split: if_splits)
next
  case (Suc n)
  show ?case
  proof (cases "term_wf board")
    case True
    then show ?thesis by (simp add: outcome_def)
  next
    case False
    let ?A = "actions board"
    have fin: "finite ?A" by (rule finite_actions)
    from False have ne: "?A \<noteq> {}"
      by (simp add: term_wf_def not_full_actions)
    have kid: "(min_ge n u (other (player board)) (place (player board) board a)
                 \<longrightarrow> u \<le> minv n (move board a)) \<and>
               (max_ge n u (other (player board)) (place (player board) board a)
                 \<longrightarrow> u \<le> maxv n (move board a))" if "a \<in> ?A" for a
      using Suc.IH [OF wf_board_move [OF Suc.prems(1)] player_move(2) [OF Suc.prems(2) that]]
        player_move(1) [OF Suc.prems(2) that]
      by (simp add: move_place)
    have "u \<le> maxv (Suc n) board" if "max_ge (Suc n) u (player board) board"
    proof -
      from that False have "\<exists>a\<in>?A. min_ge n u (other (player board)) (place (player board) board a)"
        by (simp add: outcome_def ex_lazy_iff set_succs [OF Suc.prems(1)])
      with kid have "\<exists>a\<in>?A. u \<le> minv n (move board a)" by blast
      with fin ne False show ?thesis by (simp add: Max_ge_iff)
    qed
    moreover have "u \<le> minv (Suc n) board" if "min_ge (Suc n) u (player board) board"
    proof -
      from that False have "\<forall>a\<in>?A. max_ge n u (other (player board)) (place (player board) board a)"
        by (simp add: outcome_def all_lazy_iff set_succs [OF Suc.prems(1)])
      with kid have "\<forall>a\<in>?A. u \<le> maxv n (move board a)" by blast
      with fin ne False show ?thesis by simp
    qed
    ultimately show ?thesis by blast
  qed
qed


subsection \<open>Evaluation on an explicit board\<close>

fun cons_if :: "bool \<Rightarrow> 'a \<Rightarrow> 'a list \<Rightarrow> 'a list" where
  "cons_if True x xs = x # xs"
| "cons_if False x xs = xs"

fun same3 :: "cell \<Rightarrow> cell \<Rightarrow> cell \<Rightarrow> bool" where
  "same3 (Some x) (Some y) (Some z) = (x = y \<and> y = z)"
| "same3 _ _ _ = False"

fun verdict :: "cell \<Rightarrow> bool \<Rightarrow> int option" where
  "verdict (Some MarkX) full = Some 1"
| "verdict (Some MarkO) full = Some (- 1)"
| "verdict None True = Some 0"
| "verdict None False = None"

fun filled :: "cell list \<Rightarrow> bool" where
  "filled [] = True"
| "filled (None # cs) = False"
| "filled (Some m # cs) = filled cs"

lemma map_filter_Cons: "map f (filter P (x # xs)) = cons_if (P x) (f x) (map f (filter P xs))"
  by simp

lemma same3_iff: "same3 a b c \<longleftrightarrow> a = b \<and> b = c \<and> c \<noteq> None"
  by (cases a; cases b; cases c) auto

lemma filled_iff: "filled cs \<longleftrightarrow> list_all (\<lambda>c. c \<noteq> None) cs"
  by (induction cs rule: filled.induct) simp_all

lemma outcome_verdict: "outcome board = verdict (winner_wf board) (board_full board)"
  by (cases "(winner_wf board, board_full board)" rule: verdict.cases)
     (simp_all add: outcome_def term_wf_def util_wf_def)

lemma outcome_board:
  "outcome [[a, b, c], [d, e, f], [g, h, i]] =
     verdict (winner_wf [[a, b, c], [d, e, f], [g, h, i]]) (filled [a, b, c, d, e, f, g, h, i])"
  by (simp add: outcome_verdict filled_iff board_full_def)

lemma succs_board:
  "succs m [[a, b, c], [d, e, f], [g, h, i]] =
     cons_if (e = None) [[a, b, c], [d, Some m, f], [g, h, i]]
    (cons_if (a = None) [[Some m, b, c], [d, e, f], [g, h, i]]
    (cons_if (c = None) [[a, b, Some m], [d, e, f], [g, h, i]]
    (cons_if (g = None) [[a, b, c], [d, e, f], [Some m, h, i]]
    (cons_if (i = None) [[a, b, c], [d, e, f], [g, h, Some m]]
    (cons_if (b = None) [[a, Some m, c], [d, e, f], [g, h, i]]
    (cons_if (d = None) [[a, b, c], [Some m, e, f], [g, h, i]]
    (cons_if (f = None) [[a, b, c], [d, e, Some m], [g, h, i]]
    (cons_if (h = None) [[a, b, c], [d, e, f], [g, Some m, i]] []))))))))"
  unfolding succs_def priority_def map_filter_Cons
  by (simp add: actions_iff place_def)

lemma winner_wf_board:
  "winner_wf [[a, b, c], [d, e, f], [g, h, i]] =
     (if same3 a b c then a
      else if same3 a d g then a
      else if same3 d e f then d
      else if same3 b e h then b
      else if same3 g h i then g
      else if same3 c f i then c
      else if same3 a e i then a
      else if same3 c e g then c
      else None)"
  by (simp add: winner_wf_def complete_def same3_iff split del: if_split cong: if_cong)


lemmas chk_rules = outcome_board winner_wf_board succs_board

section \<open>The scenario of an immediate win\<close>

lemma scenario_facts:
  "wf_board [[Some MarkX, Some MarkX, EMPTY], [Some MarkO, Some MarkO, EMPTY], [EMPTY, EMPTY, EMPTY]]"
  "balanced [[Some MarkX, Some MarkX, EMPTY], [Some MarkO, Some MarkO, EMPTY], [EMPTY, EMPTY, EMPTY]] 0"
  "empties [[Some MarkX, Some MarkX, EMPTY], [Some MarkO, Some MarkO, EMPTY], [EMPTY, EMPTY, EMPTY]] = 5"
  "player [[Some MarkX, Some MarkX, EMPTY], [Some MarkO, Some MarkO, EMPTY], [EMPTY, EMPTY, EMPTY]]
     = MarkX"
  "term_wf [[Some MarkX, Some MarkX, EMPTY], [Some MarkO, Some MarkO, EMPTY], [EMPTY, EMPTY, EMPTY]]
     = False"
  "actions [[Some MarkX, Some MarkX, EMPTY], [Some MarkO, Some MarkO, EMPTY], [EMPTY, EMPTY, EMPTY]]
     = {(0, 2), (1, 2), (2, 0), (2, 1), (2, 2)}"
  by (simp_all add: wf_board_def balanced_def empties_def player_def count_mark_def
      term_wf_def winner_wf_def complete_def board_full_def
      actions_def actions_list_def row_actions_def)

lemma scenario_win_value:
  "maxv 5 [[Some MarkX, Some MarkX, EMPTY], [Some MarkO, Some MarkO, EMPTY], [EMPTY, EMPTY, EMPTY]] = 1"
proof -
  let ?b = "[[Some MarkX, Some MarkX, EMPTY], [Some MarkO, Some MarkO, EMPTY], [EMPTY, EMPTY, EMPTY]]"
  have "max_ge 5 1 MarkX ?b"
    by (simp add: eval_nat_numeral chk_rules)
  with ge_sound [where n = 5 and u = 1, OF scenario_facts(1,2)] have "1 \<le> maxv 5 ?b"
    by (simp add: scenario_facts(4))
  with maxv_minv_bounds [of 5 ?b] show ?thesis by simp
qed

lemma scenario_other_moves:
  assumes "a \<in> {(1, 2), (2, 0), (2, 1), (2, 2)}"
  shows "minv 4 (move [[Some MarkX, Some MarkX, EMPTY], [Some MarkO, Some MarkO, EMPTY],
                       [EMPTY, EMPTY, EMPTY]] a) \<le> 0"
proof -
  let ?b = "[[Some MarkX, Some MarkX, EMPTY], [Some MarkO, Some MarkO, EMPTY], [EMPTY, EMPTY, EMPTY]]"
  from assms have a: "a \<in> actions ?b"
    by (auto simp: scenario_facts(6))
  have chk: "min_le 4 0 MarkO (place MarkX ?b a)"
    using assms by (auto simp: place_def eval_nat_numeral chk_rules)
  from player_move [OF scenario_facts(2) a]
  have p: "player (move ?b a) = MarkO" and b: "balanced (move ?b a) 1"
    by (simp_all add: scenario_facts(4))
  have mp: "move ?b a = place MarkX ?b a"
    by (simp add: move_place scenario_facts(4))
  from chk have "min_le 4 0 (player (move ?b a)) (move ?b a)"
    unfolding p unfolding mp .
  with le_sound [where n = 4 and u = 0, OF wf_board_move [OF scenario_facts(1)] b]
  show ?thesis by blast
qed

text \<open>
  C2.  On the board \<open>[[X, X, _], [O, O, _], [_, _, _]]\<close> the player to move is X,
  \<^verbatim>\<open>minimax\<close> returns \<open>(0, 2)\<close> whatever the iteration order of the action set,
  and \<^verbatim>\<open>max_value\<close> on the board after that move returns \<open>(1, None)\<close>.
\<close>

theorem scenario_win_in_one:
  assumes "valid_enum en"
  shows "player [[Some MarkX, Some MarkX, EMPTY], [Some MarkO, Some MarkO, EMPTY],
                 [EMPTY, EMPTY, EMPTY]] = MarkX
       \<and> minimax en [[Some MarkX, Some MarkX, EMPTY], [Some MarkO, Some MarkO, EMPTY],
                      [EMPTY, EMPTY, EMPTY]] = Inr (Some (0, 2))
       \<and> result [[Some MarkX, Some MarkX, EMPTY], [Some MarkO, Some MarkO, EMPTY],
                  [EMPTY, EMPTY, EMPTY]] (0, 2)
           = Inr [[Some MarkX, Some MarkX, Some MarkX], [Some MarkO, Some MarkO, EMPTY],
                  [EMPTY, EMPTY, EMPTY]]
       \<and> max_value en [[Some MarkX, Some MarkX, Some MarkX], [Some MarkO, Some MarkO, EMPTY],
                        [EMPTY, EMPTY, EMPTY]] = Inr (Fin 1, None)"
proof -
  let ?b = "[[Some MarkX, Some MarkX, EMPTY], [Some MarkO, Some MarkO, EMPTY], [EMPTY, EMPTY, EMPTY]]"
  let ?w = "[[Some MarkX, Some MarkX, Some MarkX], [Some MarkO, Some MarkO, EMPTY],
             [EMPTY, EMPTY, EMPTY]]"
  note f = scenario_facts
  from search_correct [OF assms f(1) f(3)]
  obtain r where r: "max_value en ?b = Inr r" and ans: "max_answer 5 ?b r"
    by blast
  from ans f(5) obtain a where a: "a \<in> actions ?b" "snd r = Some a"
    and v: "minv (5 - 1) (move ?b a) = maxv 5 ?b"
    by (auto simp: max_answer_def)
  have "a = (0, 2)"
  proof (rule ccontr)
    assume "a \<noteq> (0, 2)"
    with a(1) have "a \<in> {(1, 2), (2, 0), (2, 1), (2, 2)}"
      by (simp add: f(6))
    from scenario_other_moves [OF this] v scenario_win_value show False
      by simp
  qed
  with a(2) r have mv: "max_value en ?b = Inr (fst r, Some (0, 2))"
    by (cases r) simp
  have "minimax en ?b = Inr (Some (0, 2))"
    by (simp add: minimax_def terminal_term_wf [OF f(1)] f(4,5) mv)
  moreover have res: "result ?b (0, 2) = Inr ?w"
    by (simp add: result_def f(4,6))
  moreover have "max_value en ?w = Inr (Fin 1, None)"
  proof -
    have "wf_board ?w" "term_wf ?w" "util_wf ?w = 1"
      by (simp_all add: wf_board_def term_wf_def util_wf_def winner_wf_def complete_def)
    with max_value_terminal(1) [of ?w en] show ?thesis by simp
  qed
  ultimately show ?thesis
    using f(4) by simp
qed

theorem scenario_win_in_one_witness:
  "valid_enum sorted_list_of_set
   \<and> minimax sorted_list_of_set
        [[Some MarkX, Some MarkX, EMPTY], [Some MarkO, Some MarkO, EMPTY], [EMPTY, EMPTY, EMPTY]]
       = Inr (Some (0, 2))"
  using scenario_win_in_one [OF valid_enum_sorted] valid_enum_sorted by simp

section \<open>Self-play ends in a draw\<close>

text \<open>
  Self-play: while the board is not terminal, ask \<^verbatim>\<open>minimax\<close> for an action and
  apply it with \<^verbatim>\<open>result\<close>.  An answer \<open>None\<close> on a board that is not terminal
  would make \<^verbatim>\<open>result(board, None)\<close> raise, \<open>None\<close> being no member of the
  action set.
\<close>

function self_play :: "enum \<Rightarrow> board \<Rightarrow> error + board" where
  "self_play en board =
     (case terminal board of
        Inl e \<Rightarrow> Inl e
      | Inr t \<Rightarrow>
          if t then Inr board
          else (case minimax en board of
                  Inl e \<Rightarrow> Inl e
                | Inr None \<Rightarrow> Inl InvalidAction
                | Inr (Some a) \<Rightarrow>
                    (case result board a of
                       Inl e \<Rightarrow> Inl e
                     | Inr board' \<Rightarrow> self_play en board')))"
  by pat_completeness auto
termination
proof (relation "measure (\<lambda>(en, board). empties board)", goal_cases)
  case 1
  show ?case by simp
next
  case 2
  then show ?case using result_empties by fastforce
qed

declare self_play.simps [simp del]

text \<open>A board of value 0 for the side to move, X or O.\<close>

definition drawn :: "board \<Rightarrow> bool" where
  "drawn board =
     (wf_board board \<and>
      ((balanced board 0 \<and> maxv (empties board) board = 0) \<or>
       (balanced board 1 \<and> minv (empties board) board = 0)))"

lemma maxv_terminal: "term_wf board \<Longrightarrow> maxv n board = util_wf board"
  and minv_terminal: "term_wf board \<Longrightarrow> minv n board = util_wf board"
  by (cases n; simp)+

lemma drawn_step:
  assumes en: "valid_enum en" and d: "drawn board" and nt: "\<not> term_wf board"
  shows "\<exists>a. minimax en board = Inr (Some a) \<and> result board a = Inr (move board a) \<and>
             drawn (move board a)"
proof -
  from d have wf: "wf_board board" by (simp add: drawn_def)
  let ?n = "empties board"
  from search_correct [OF en wf refl]
  obtain r1 r2 where r1: "max_value en board = Inr r1" "max_answer ?n board r1"
    and r2: "min_value en board = Inr r2" "min_answer ?n board r2"
    by blast
  from r1(2) nt obtain a1 where a1: "a1 \<in> actions board" "snd r1 = Some a1"
    "minv (?n - 1) (move board a1) = maxv ?n board"
    by (auto simp: max_answer_def)
  from r2(2) nt obtain a2 where a2: "a2 \<in> actions board" "snd r2 = Some a2"
    "maxv (?n - 1) (move board a2) = minv ?n board"
    by (auto simp: min_answer_def)
  have kid: "wf_board (move board a) \<and> empties (move board a) = ?n - 1 \<and>
             result board a = Inr (move board a)" if "a \<in> actions board" for a
    using result_empties [OF result_move [OF that]] result_move [OF that] wf_board_move [OF wf]
    by simp
  from d consider (x) "balanced board 0" "maxv ?n board = 0"
    | (o) "balanced board 1" "minv ?n board = 0"
    by (auto simp: drawn_def)
  then show ?thesis
  proof cases
    case x
    from balanced_player [OF x(1)] have p: "player board = MarkX" by simp
    have "minimax en board = Inr (Some a1)"
      using nt p r1(1) a1(2) by (cases r1) (simp add: minimax_def terminal_term_wf [OF wf])
    moreover from player_move(2) [OF x(1) a1(1)] kid [OF a1(1)] a1(3) x(2)
    have "drawn (move board a1)"
      by (simp add: drawn_def)
    ultimately show ?thesis using kid [OF a1(1)] by blast
  next
    case o
    from balanced_player [OF o(1)] have p: "player board = MarkO" by simp
    have "minimax en board = Inr (Some a2)"
      using nt p r2(1) a2(2) by (cases r2) (simp add: minimax_def terminal_term_wf [OF wf])
    moreover from player_move(2) [OF o(1) a2(1)] kid [OF a2(1)] a2(3) o(2)
    have "drawn (move board a2)"
      by (simp add: drawn_def)
    ultimately show ?thesis using kid [OF a2(1)] by blast
  qed
qed

lemma self_play_drawn:
  assumes en: "valid_enum en"
  shows "drawn board \<Longrightarrow> empties board = n \<Longrightarrow>
     \<exists>final. self_play en board = Inr final \<and> wf_board final \<and> term_wf final \<and>
       util_wf final = 0"
proof (induction n arbitrary: board)
  case 0
  then have wf: "wf_board board" and t: "term_wf board"
    by (simp_all add: drawn_def term_wf_def empties_0_full)
  from 0(1) t have "util_wf board = 0"
    by (auto simp: drawn_def maxv_terminal minv_terminal)
  with wf t show ?case
    by (simp add: self_play.simps terminal_term_wf)
next
  case (Suc n)
  from Suc.prems have wf: "wf_board board" by (simp add: drawn_def)
  show ?case
  proof (cases "term_wf board")
    case True
    with Suc.prems(1) have "util_wf board = 0"
      by (auto simp: drawn_def maxv_terminal minv_terminal)
    with wf True show ?thesis
      by (simp add: self_play.simps terminal_term_wf)
  next
    case False
    from drawn_step [OF en Suc.prems(1) False]
    obtain a where a: "minimax en board = Inr (Some a)" "result board a = Inr (move board a)"
      "drawn (move board a)"
      by blast
    from result_empties [OF a(2)] Suc.prems(2) have "empties (move board a) = n" by simp
    from Suc.IH [OF a(3) this] obtain final where
      f: "self_play en (move board a) = Inr final" "wf_board final" "term_wf final"
         "util_wf final = 0"
      by blast
    have "self_play en board = self_play en (move board a)"
      using False a(1,2) wf by (subst self_play.simps) (simp add: terminal_term_wf)
    with f show ?thesis by simp
  qed
qed

lemma initial_facts:
  "wf_board initial_state" "balanced initial_state 0" "empties initial_state = 9"
  "player initial_state = MarkX"
  by (simp_all add: initial_state_def wf_board_def balanced_def empties_def player_def
      count_mark_def)

lemma initial_value: "maxv 9 initial_state = 0"
proof -
  have "max_ge 9 0 MarkX initial_state"
    by (simp add: eval_nat_numeral chk_rules initial_state_def)
  with ge_sound [where n = 9 and u = 0, OF initial_facts(1,2)]
  have "0 \<le> maxv 9 initial_state"
    by (simp add: initial_facts(4))
  moreover have "max_le 9 0 MarkX initial_state"
    by (simp add: eval_nat_numeral chk_rules initial_state_def)
  with le_sound [where n = 9 and u = 0, OF initial_facts(1,2)]
  have "maxv 9 initial_state \<le> 0"
    by (simp add: initial_facts(4))
  ultimately show ?thesis by simp
qed

text \<open>
  C1.  From the empty board, playing for both sides the action that \<^verbatim>\<open>minimax\<close>
  returns, and applying it with \<^verbatim>\<open>result\<close>, ends on a terminal board of utility 0,
  whatever the iteration order of the action sets.
\<close>

theorem self_play_draw:
  assumes "valid_enum en"
  shows "\<exists>final. self_play en initial_state = Inr final \<and>
           terminal final = Inr True \<and> utility final = Inr 0"
proof -
  have "drawn initial_state"
    by (simp add: drawn_def initial_facts initial_value)
  from self_play_drawn [OF assms this refl]
  obtain final where "self_play en initial_state = Inr final" "wf_board final"
    "term_wf final" "util_wf final = 0"
    by blast
  then show ?thesis
    by (auto simp: terminal_term_wf utility_util_wf)
qed

theorem self_play_draw_witness:
  "valid_enum sorted_list_of_set
   \<and> (\<exists>final. self_play sorted_list_of_set initial_state = Inr final \<and>
         terminal final = Inr True \<and> utility final = Inr 0)"
  using self_play_draw [OF valid_enum_sorted] valid_enum_sorted by simp

section \<open>The deep copy in result\<close>

text \<open>
  In the source a board is a list object that refers to three row objects, and
  \<^verbatim>\<open>result\<close> writes into a \<^verbatim>\<open>copy.deepcopy\<close> of it.  The store below holds these
  objects by address (the index in the list); nothing is ever freed.  Cells are
  strings or \<^verbatim>\<open>None\<close>, which are immutable and not copied.
\<close>

datatype obj = Cells "cell list" | Refs "nat list"

type_synonym heap = "obj list"

definition cells_at :: "heap \<Rightarrow> nat \<Rightarrow> cell list option" where
  "cells_at h r =
     (if r < length h then (case h ! r of Cells cs \<Rightarrow> Some cs | Refs rs \<Rightarrow> None) else None)"

definition refs_at :: "heap \<Rightarrow> nat \<Rightarrow> nat list option" where
  "refs_at h p =
     (if p < length h then (case h ! p of Cells cs \<Rightarrow> None | Refs rs \<Rightarrow> Some rs) else None)"

fun rows_of :: "heap \<Rightarrow> nat list \<Rightarrow> board option" where
  "rows_of h [] = Some []"
| "rows_of h (r # rs) =
     (case cells_at h r of
        None \<Rightarrow> None
      | Some cs \<Rightarrow> (case rows_of h rs of None \<Rightarrow> None | Some rows \<Rightarrow> Some (cs # rows)))"

text \<open>The board value that the object at address \<open>p\<close> stands for.\<close>

definition board_of :: "heap \<Rightarrow> nat \<Rightarrow> board option" where
  "board_of h p = (case refs_at h p of None \<Rightarrow> None | Some rs \<Rightarrow> rows_of h rs)"

text \<open>
  \<open>board_at h p board\<close>: the object at \<open>p\<close> is a list of row objects, no row object
  twice, and it reads as \<open>board\<close>.
\<close>

definition board_at :: "heap \<Rightarrow> nat \<Rightarrow> board \<Rightarrow> bool" where
  "board_at h p board =
     (case refs_at h p of
        None \<Rightarrow> False
      | Some rs \<Rightarrow> distinct rs \<and> rows_of h rs = Some board)"

text \<open>
  \<^verbatim>\<open>copy.deepcopy\<close> keeps a memo from the address of an object to the address of its
  copy, so that an object met twice is copied once.  The copy of the outer list is
  allocated first and entered in the memo, then the rows are copied in order.
\<close>

fun copy_rows :: "heap \<Rightarrow> (nat \<times> nat) list \<Rightarrow> nat list \<Rightarrow> (heap \<times> nat list) option" where
  "copy_rows h memo [] = Some (h, [])"
| "copy_rows h memo (r # rs) =
     (case map_of memo r of
        Some r' \<Rightarrow>
          (case copy_rows h memo rs of
             None \<Rightarrow> None
           | Some (h', rs') \<Rightarrow> Some (h', r' # rs'))
      | None \<Rightarrow>
          (case cells_at h r of
             None \<Rightarrow> None
           | Some cs \<Rightarrow>
               (case copy_rows (h @ [Cells cs]) ((r, length h) # memo) rs of
                  None \<Rightarrow> None
                | Some (h', rs') \<Rightarrow> Some (h', length h # rs'))))"

definition deepcopy :: "heap \<Rightarrow> nat \<Rightarrow> (heap \<times> nat) option" where
  "deepcopy h p =
     (case refs_at h p of
        None \<Rightarrow> None
      | Some rs \<Rightarrow>
          (case copy_rows (h @ [Refs []]) [(p, length h)] rs of
             None \<Rightarrow> None
           | Some (h', rs') \<Rightarrow> Some (h'[length h := Refs rs'], length h)))"

text \<open>
  \<^verbatim>\<open>result\<close> on the store: the membership test reads the board, the copy allocates
  new objects, and \<^verbatim>\<open>new_board[i][j] = player(board)\<close> writes into a row of the copy.
  The outcome is \<open>None\<close> when the address holds no board.
\<close>

definition result_h :: "heap \<Rightarrow> nat \<Rightarrow> action \<Rightarrow> (heap \<times> (error + nat)) option" where
  "result_h h board action =
     (case board_of h board of
        None \<Rightarrow> None
      | Some b \<Rightarrow>
          if action \<notin> actions b then Some (h, Inl InvalidAction)
          else (case deepcopy h board of
                  None \<Rightarrow> None
                | Some (h1, new_board) \<Rightarrow>
                    (case (board_of h1 board, refs_at h1 new_board) of
                       (Some b1, Some rs) \<Rightarrow>
                         (case cells_at h1 (rs ! nat (fst action)) of
                            None \<Rightarrow> None
                          | Some cs \<Rightarrow>
                              Some (h1[rs ! nat (fst action) :=
                                         Cells (cs[nat (snd action) := Some (player b1)])],
                                    Inr new_board))
                     | _ \<Rightarrow> None)))"

text \<open>\<^verbatim>\<open>initial_state()\<close> allocates three rows and the list of them.\<close>

definition initial_state_h :: "heap \<Rightarrow> heap \<times> nat" where
  "initial_state_h h =
     (h @ [Cells [EMPTY, EMPTY, EMPTY], Cells [EMPTY, EMPTY, EMPTY], Cells [EMPTY, EMPTY, EMPTY],
           Refs [length h, length h + 1, length h + 2]],
      length h + 3)"

lemma rows_of_iff:
  "rows_of h rs = Some rows \<longleftrightarrow> list_all2 (\<lambda>r row. cells_at h r = Some row) rs rows"
proof (induction rs arbitrary: rows)
  case Nil
  then show ?case by auto
next
  case (Cons r rs)
  have "rows_of h (r # rs) = Some rows \<longleftrightarrow>
          (\<exists>cs rest. rows = cs # rest \<and> cells_at h r = Some cs \<and> rows_of h rs = Some rest)"
    by (auto split: option.splits)
  then show ?case
    by (simp add: Cons.IH list_all2_Cons1)
qed

lemma cells_at_append: "r < length h \<Longrightarrow> cells_at (h @ xs) r = cells_at h r"
  by (simp add: cells_at_def nth_append)

lemma cells_at_Some_less: "cells_at h r = Some cs \<Longrightarrow> r < length h"
  by (simp add: cells_at_def split: if_splits)

lemma copy_rows_fresh:
  assumes "list_all2 (\<lambda>r row. cells_at h r = Some row) rs rows"
    and "set rs \<inter> fst ` set memo = {}"
    and "distinct rs"
  shows "copy_rows h memo rs =
           Some (h @ map Cells rows, [length h ..< length h + length rs])"
  using assms
proof (induction rs arbitrary: h memo rows)
  case Nil
  then show ?case by simp
next
  case (Cons r rs)
  from Cons.prems(1) obtain row rest where rows: "rows = row # rest"
    and r: "cells_at h r = Some row"
    and rest: "list_all2 (\<lambda>r row. cells_at h r = Some row) rs rest"
    by (auto simp: list_all2_Cons1)
  from Cons.prems(2) have miss: "map_of memo r = None"
    by (auto simp: map_of_eq_None_iff)
  let ?h = "h @ [Cells row]"
  have "list_all2 (\<lambda>r row. cells_at ?h r = Some row) rs rest"
    using rest by (rule list_all2_mono) (simp add: cells_at_append cells_at_Some_less)
  moreover from Cons.prems(2,3) have "set rs \<inter> fst ` set ((r, length h) # memo) = {}"
    by auto
  moreover from Cons.prems(3) have "distinct rs" by simp
  ultimately have "copy_rows ?h ((r, length h) # memo) rs =
      Some (?h @ map Cells rest, [length ?h ..< length ?h + length rs])"
    by (rule Cons.IH)
  moreover have "[length h ..< length h + length (r # rs)] =
      length h # [length ?h ..< length ?h + length rs]"
    by (simp add: upt_conv_Cons del: upt_Suc)
  ultimately show ?case
    using miss r rows by (simp del: upt_Suc)
qed


lemma refs_at_append: "p < length h \<Longrightarrow> refs_at (h @ xs) p = refs_at h p"
  by (simp add: refs_at_def nth_append)

lemma refs_at_Some_less: "refs_at h p = Some rs \<Longrightarrow> p < length h"
  by (simp add: refs_at_def split: if_splits)

lemma board_at_iff:
  "board_at h p board \<longleftrightarrow>
     (\<exists>rs. refs_at h p = Some rs \<and> distinct rs \<and>
           list_all2 (\<lambda>r row. cells_at h r = Some row) rs board)"
  by (auto simp: board_at_def rows_of_iff split: option.splits)

lemma board_at_board_of: "board_at h p board \<Longrightarrow> board_of h p = Some board"
  by (auto simp: board_at_def board_of_def split: option.splits)

lemma board_at_append:
  assumes "board_at h p board"
  shows "board_at (h @ xs) p board"
proof -
  from assms obtain rs where rs: "refs_at h p = Some rs" "distinct rs"
    "list_all2 (\<lambda>r row. cells_at h r = Some row) rs board"
    by (auto simp: board_at_iff)
  have "list_all2 (\<lambda>r row. cells_at (h @ xs) r = Some row) rs board"
    using rs(3) by (rule list_all2_mono) (simp add: cells_at_append cells_at_Some_less)
  with rs(1,2) show ?thesis
    by (auto simp: board_at_iff refs_at_append refs_at_Some_less)
qed

lemma board_at_fresh:
  "board_at (h @ Refs [Suc (length h) ..< Suc (length h + length board)] # map Cells board)
     (length h) board"
proof -
  let ?q = "length h"
  let ?rs = "[Suc ?q ..< Suc (?q + length board)]"
  let ?h = "h @ Refs ?rs # map Cells board"
  have "refs_at ?h ?q = Some ?rs"
    by (simp add: refs_at_def del: upt_Suc)
  moreover have "cells_at ?h (?rs ! k) = Some (board ! k)" if "k < length board" for k
  proof -
    from that have "?rs ! k = Suc ?q + k" by (simp del: upt_Suc)
    with that show ?thesis by (simp add: cells_at_def nth_append del: upt_Suc)
  qed
  then have "list_all2 (\<lambda>r row. cells_at ?h r = Some row) ?rs board"
    by (simp add: list_all2_conv_all_nth del: upt_Suc)
  ultimately show ?thesis
    unfolding board_at_iff by (intro exI [of _ ?rs]) (simp del: upt_Suc)
qed

lemma deepcopy_board:
  assumes "board_at h p board"
  shows "deepcopy h p =
     Some (h @ Refs [Suc (length h) ..< Suc (length h + length board)] # map Cells board,
           length h)"
proof -
  from assms obtain rs where rs: "refs_at h p = Some rs" "distinct rs"
    "list_all2 (\<lambda>r row. cells_at h r = Some row) rs board"
    by (auto simp: board_at_iff)
  let ?h = "h @ [Refs []]"
  have "list_all2 (\<lambda>r row. cells_at ?h r = Some row) rs board"
    using rs(3) by (rule list_all2_mono) (simp add: cells_at_append cells_at_Some_less)
  moreover have "p \<notin> set rs"
  proof
    assume "p \<in> set rs"
    with rs(3) obtain row where "cells_at h p = Some row"
      by (auto simp: list_all2_conv_all_nth in_set_conv_nth)
    with rs(1) show False
      by (auto simp: cells_at_def refs_at_def split: if_splits obj.splits)
  qed
  then have "set rs \<inter> fst ` set [(p, length h)] = {}" by simp
  ultimately have "copy_rows ?h [(p, length h)] rs =
      Some (?h @ map Cells board, [length ?h ..< length ?h + length rs])"
    using rs(2) by (rule copy_rows_fresh)
  moreover from rs(3) have "length rs = length board"
    by (rule list_all2_lengthD)
  ultimately show ?thesis
    by (simp add: deepcopy_def rs(1) list_update_append del: upt_Suc)
qed

lemma result_h_ok:
  assumes "board_at h p board" and "a \<in> actions board"
  shows "result_h h p a =
     Some (h @ Refs [Suc (length h) ..< Suc (length h + length board)]
                # map Cells (move board a),
           Inr (length h))"
proof -
  let ?q = "length h"
  let ?rs = "[Suc ?q ..< Suc (?q + length board)]"
  let ?h1 = "h @ Refs ?rs # map Cells board"
  obtain i j where a: "a = (i, j)" by (cases a)
  with assms(2) have i: "nat i < length board"
    by (simp add: actions_iff)
  have b1: "board_of ?h1 p = Some board"
    using board_at_board_of [OF board_at_append [OF assms(1)]] .
  have r1: "refs_at ?h1 ?q = Some ?rs"
    by (simp add: refs_at_def del: upt_Suc)
  from i have n: "?rs ! nat i = Suc ?q + nat i" by (simp del: upt_Suc)
  have c1: "cells_at ?h1 (?rs ! nat i) = Some (board ! nat i)"
    unfolding n using i by (simp add: cells_at_def nth_append del: upt_Suc)
  have upd: "?h1[?rs ! nat i := Cells ((board ! nat i)[nat j := Some (player board)])] =
      h @ Refs ?rs # map Cells (move board a)"
    unfolding n using i by (simp add: list_update_append move_def a map_update del: upt_Suc)
  from assms(2) upd show ?thesis
    unfolding result_h_def a
    by (simp add: board_at_board_of [OF assms(1)] deepcopy_board [OF assms(1)] b1 r1 c1
        del: upt_Suc)
qed

lemma result_h_invalid:
  assumes "board_of h p = Some board" and "a \<notin> actions board"
  shows "result_h h p a = Some (h, Inl InvalidAction)"
  using assms by (simp add: result_h_def)

lemma initial_state_h_board:
  "board_at (fst (initial_state_h h)) (snd (initial_state_h h)) initial_state"
  unfolding board_at_iff
  by (intro exI [of _ "[length h, length h + 1, length h + 2]"])
     (simp add: initial_state_h_def initial_state_def refs_at_def cells_at_def nth_append)


text \<open>
  Whatever the sharing of rows, the copy only appends to the store, it has as many
  rows as the original, and its rows are row objects allocated after address \<open>n\<close>.
\<close>

definition memo_ok :: "heap \<Rightarrow> nat \<Rightarrow> (nat \<times> nat) list \<Rightarrow> bool" where
  "memo_ok h n memo =
     (\<forall>(x, x')\<in>set memo. x < length h \<and> n \<le> x' \<and>
        (cells_at h x \<noteq> None \<longrightarrow> cells_at h x' \<noteq> None))"

lemma cells_at_append_keeps: "cells_at h x \<noteq> None \<Longrightarrow> cells_at (h @ ext) x = cells_at h x"
  by (cases "cells_at h x") (simp_all add: cells_at_append cells_at_Some_less)

lemma memo_ok_extend:
  assumes "memo_ok h n memo" and "cells_at h r = Some cs" and "n \<le> length h"
  shows "memo_ok (h @ [Cells cs]) n ((r, length h) # memo)"
proof -
  let ?h = "h @ [Cells cs]"
  have "x < length ?h \<and> n \<le> x' \<and> (cells_at ?h x \<noteq> None \<longrightarrow> cells_at ?h x' \<noteq> None)"
    if "(x, x') \<in> set ((r, length h) # memo)" for x x'
  proof (cases "(x, x') = (r, length h)")
    case True
    with assms(2,3) cells_at_Some_less [OF assms(2)] show ?thesis
      by (simp add: cells_at_def)
  next
    case False
    with that assms(1) have m: "x < length h" "n \<le> x'"
      "cells_at h x \<noteq> None \<longrightarrow> cells_at h x' \<noteq> None"
      by (auto simp: memo_ok_def)
    from m(1) have "cells_at ?h x = cells_at h x" by (simp add: cells_at_append)
    with m cells_at_append_keeps [of h x' "[Cells cs]"] show ?thesis by auto
  qed
  then show ?thesis by (auto simp: memo_ok_def)
qed

lemma copy_rows_appends:
  assumes "\<forall>r\<in>set rs. cells_at h r \<noteq> None"
    and "memo_ok h n memo"
    and "n \<le> length h"
  shows "\<exists>ext rs'. copy_rows h memo rs = Some (h @ ext, rs') \<and> length rs' = length rs \<and>
           (\<forall>r'\<in>set rs'. n \<le> r' \<and> cells_at (h @ ext) r' \<noteq> None)"
  using assms
proof (induction rs arbitrary: h memo)
  case Nil
  then show ?case by simp
next
  case (Cons r rs)
  from Cons.prems(1) obtain cs where cs: "cells_at h r = Some cs" by auto
  show ?case
  proof (cases "map_of memo r")
    case None
    let ?h = "h @ [Cells cs]"
    have "\<forall>r\<in>set rs. cells_at ?h r \<noteq> None"
      using Cons.prems(1) by (simp add: cells_at_append_keeps)
    moreover have "memo_ok ?h n ((r, length h) # memo)"
      using Cons.prems(2) cs Cons.prems(3) by (rule memo_ok_extend)
    moreover from Cons.prems(3) have "n \<le> length ?h" by simp
    ultimately obtain ext rs' where
      c: "copy_rows ?h ((r, length h) # memo) rs = Some (?h @ ext, rs')"
      "length rs' = length rs"
      "\<forall>r'\<in>set rs'. n \<le> r' \<and> cells_at (?h @ ext) r' \<noteq> None"
      using Cons.IH by blast
    have "cells_at (h @ Cells cs # ext) (length h) \<noteq> None"
      by (simp add: cells_at_def)
    with c Cons.prems(3) None cs show ?thesis
      by (intro exI [of _ "Cells cs # ext"] exI [of _ "length h # rs'"]) simp
  next
    case (Some r')
    then have "(r, r') \<in> set memo" by (rule map_of_SomeD)
    with Cons.prems(2) cs have r': "n \<le> r'" "cells_at h r' \<noteq> None"
      by (auto simp: memo_ok_def)
    from Cons.prems have "\<forall>r\<in>set rs. cells_at h r \<noteq> None" by simp
    from Cons.IH [OF this Cons.prems(2,3)] obtain ext rs' where
      c: "copy_rows h memo rs = Some (h @ ext, rs')" "length rs' = length rs"
      "\<forall>r'\<in>set rs'. n \<le> r' \<and> cells_at (h @ ext) r' \<noteq> None"
      by blast
    with r' Some cells_at_append_keeps [OF r'(2), of ext] show ?thesis
      by (intro exI [of _ ext] exI [of _ "r' # rs'"]) simp
  qed
qed

lemma rows_of_append:
  assumes "rows_of h rs = Some rows"
  shows "rows_of (h @ ext) rs = Some rows"
proof -
  from assms have "list_all2 (\<lambda>r row. cells_at h r = Some row) rs rows"
    by (simp add: rows_of_iff)
  then have "list_all2 (\<lambda>r row. cells_at (h @ ext) r = Some row) rs rows"
    by (rule list_all2_mono) (simp add: cells_at_append cells_at_Some_less)
  then show ?thesis by (simp add: rows_of_iff)
qed

lemma rows_of_update_above:
  assumes "rows_of h rs = Some rows" and "\<forall>r\<in>set rs. r \<noteq> k"
  shows "rows_of (h[k := x]) rs = Some rows"
proof -
  from assms(1) have "list_all2 (\<lambda>r row. cells_at h r = Some row) rs rows"
    by (simp add: rows_of_iff)
  then have "list_all2 (\<lambda>r row. r \<in> set rs \<and> cells_at h r = Some row) rs rows"
    by (auto simp: list_all2_conv_all_nth)
  then have "list_all2 (\<lambda>r row. cells_at (h[k := x]) r = Some row) rs rows"
    by (rule list_all2_mono) (use assms(2) in \<open>auto simp: cells_at_def split: if_splits\<close>)
  then show ?thesis by (simp add: rows_of_iff)
qed

lemma result_h_keeps_store:
  assumes "board_of h p = Some board" and "a \<in> actions board"
  shows "\<exists>h' q. result_h h p a = Some (h', Inr q) \<and> length h \<le> q \<and>
           take (length h) h' = h \<and> board_of h' p = Some board"
proof -
  from assms(1) obtain rs where rs: "refs_at h p = Some rs" "rows_of h rs = Some board"
    by (auto simp: board_of_def split: option.splits)
  have p: "p < length h" using rs(1) by (rule refs_at_Some_less)
  have cells: "\<forall>r\<in>set rs. cells_at h r \<noteq> None"
    using rs(2) by (auto simp: rows_of_iff list_all2_conv_all_nth in_set_conv_nth)
  let ?q = "length h"
  let ?h0 = "h @ [Refs []]"
  have "\<forall>r\<in>set rs. cells_at ?h0 r \<noteq> None"
    using cells by (simp add: cells_at_append_keeps)
  moreover have "memo_ok ?h0 ?q [(p, ?q)]"
    using p rs(1) by (auto simp: memo_ok_def cells_at_def refs_at_def nth_append split: obj.splits)
  moreover have "?q \<le> length ?h0" by simp
  ultimately obtain ext rs' where
    c: "copy_rows ?h0 [(p, ?q)] rs = Some (?h0 @ ext, rs')" "length rs' = length rs"
    "\<forall>r'\<in>set rs'. ?q \<le> r' \<and> cells_at (?h0 @ ext) r' \<noteq> None"
    using copy_rows_appends by blast
  let ?h1 = "h @ Refs rs' # ext"
  have dc: "deepcopy h p = Some (?h1, ?q)"
    by (simp add: deepcopy_def rs(1) c(1) list_update_append)
  have len: "length rs = length board"
    using rs(2) by (auto simp: rows_of_iff dest: list_all2_lengthD)
  obtain i j where a: "a = (i, j)" by (cases a)
  with assms(2) have i: "nat i < length rs'"
    by (simp add: actions_iff c(2) len)
  let ?r = "rs' ! nat i"
  from i have "?r \<in> set rs'" by (rule nth_mem)
  with c(3) have r: "?q \<le> ?r" "cells_at (?h0 @ ext) ?r \<noteq> None"
    by blast+
  have "cells_at (?h0 @ ext) ?q = None"
    by (simp add: cells_at_def nth_append)
  with r have rq: "?r \<noteq> ?q" by auto
  with r(2) obtain cs where cs: "cells_at ?h1 ?r = Some cs"
    by (auto simp: cells_at_def nth_append nth_Cons split: if_splits nat.splits)
  have b1: "board_of ?h1 p = Some board"
    using p rs by (simp add: board_of_def refs_at_append rows_of_append)
  have r1: "refs_at ?h1 ?q = Some rs'"
    by (simp add: refs_at_def)
  let ?h2 = "?h1[?r := Cells (cs[nat j := Some (player board)])]"
  have res: "result_h h p a = Some (?h2, Inr ?q)"
    using assms b1 r1 cs by (simp add: result_h_def dc a)
  have "take ?q ?h2 = h"
    using r(1) by simp
  moreover have "board_of ?h2 p = Some board"
  proof -
    have "\<forall>x\<in>set rs. x \<noteq> ?r"
      using cells r(1) by (auto simp: cells_at_def split: if_splits)
    with rows_of_append [OF rs(2), of "Refs rs' # ext"]
    have "rows_of ?h2 rs = Some board"
      by (rule rows_of_update_above)
    moreover have "refs_at ?h2 p = Some rs"
      using p r(1) rs(1) by (simp add: refs_at_def nth_append)
    ultimately show ?thesis by (simp add: board_of_def)
  qed
  ultimately show ?thesis
    using res by (intro exI [of _ ?h2] exI [of _ ?q]) simp
qed

text \<open>
  The condition that no row object occurs twice matters: \<^verbatim>\<open>deepcopy\<close> keeps the sharing
  of rows, and one write then shows in every shared row of the copy.  Boards made
  by \<^verbatim>\<open>initial_state\<close> and \<^verbatim>\<open>result\<close> never share rows.
\<close>

lemma result_h_shared_rows:
  "result_h [Cells [EMPTY, EMPTY, EMPTY], Refs [0, 0, 0]] 1 (0, 0) =
     Some ([Cells [EMPTY, EMPTY, EMPTY], Refs [0, 0, 0], Refs [3, 3, 3],
            Cells [Some MarkX, EMPTY, EMPTY]], Inr 2)"
  by (simp add: result_h_def board_of_def refs_at_def cells_at_def deepcopy_def
      actions_def actions_list_def row_actions_def player_def count_mark_def)

lemma actions_wf_iff:
  assumes "wf_board board"
  shows "a \<in> actions board \<longleftrightarrow>
           0 \<le> fst a \<and> fst a \<le> 2 \<and> 0 \<le> snd a \<and> snd a \<le> 2 \<and>
           board ! nat (fst a) ! nat (snd a) = EMPTY"
proof -
  obtain i j where a: "a = (i, j)" by (cases a)
  have "nat i < 3 \<longleftrightarrow> i \<le> 2" "nat j < 3 \<longleftrightarrow> j \<le> 2" by auto
  moreover have "length (board ! nat i) = 3" if "nat i < 3"
    using assms that by (rule wf_board_rows)
  moreover from assms have "length board = 3" by (simp add: wf_board_def)
  ultimately show ?thesis
    unfolding a by (auto simp: actions_iff)
qed

text \<open>
  C4.  On a well-formed board \<^verbatim>\<open>result\<close> raises its "Invalid action" exception
  exactly when the action is not in \<^verbatim>\<open>actions(board)\<close>, that is when an index is
  outside \<open>0..2\<close> or the cell is occupied; it raises nothing else; and when it raises,
  no object is allocated and the store, the input board with it, is as before.
\<close>

theorem result_raises_iff:
  assumes "wf_board board"
  shows "(result board a = Inl InvalidAction \<longleftrightarrow> a \<notin> actions board) \<and>
         (a \<notin> actions board \<longleftrightarrow>
            fst a < 0 \<or> 2 < fst a \<or> snd a < 0 \<or> 2 < snd a \<or>
            board ! nat (fst a) ! nat (snd a) \<noteq> EMPTY) \<and>
         (\<forall>e. result board a = Inl e \<longrightarrow> e = InvalidAction \<and> a \<notin> actions board) \<and>
         (\<forall>h p. board_of h p = Some board \<and> a \<notin> actions board \<longrightarrow>
            result_h h p a = Some (h, Inl InvalidAction))"
proof (intro conjI allI impI)
  show "result board a = Inl InvalidAction \<longleftrightarrow> a \<notin> actions board"
    by (cases a) (simp add: result_def)
next
  show "a \<notin> actions board \<longleftrightarrow>
          fst a < 0 \<or> 2 < fst a \<or> snd a < 0 \<or> 2 < snd a \<or>
          board ! nat (fst a) ! nat (snd a) \<noteq> EMPTY"
    unfolding actions_wf_iff [OF assms] by auto
next
  fix e assume "result board a = Inl e"
  then show "e = InvalidAction" and "a \<notin> actions board"
    by (cases a; simp add: result_def split: if_splits)+
next
  fix h p assume "board_of h p = Some board \<and> a \<notin> actions board"
  then show "result_h h p a = Some (h, Inl InvalidAction)"
    by (elim conjE) (rule result_h_invalid)
qed

theorem result_raises_iff_witness:
  "wf_board [[Some MarkX, EMPTY, EMPTY], [EMPTY, EMPTY, EMPTY], [EMPTY, EMPTY, EMPTY]]
   \<and> result [[Some MarkX, EMPTY, EMPTY], [EMPTY, EMPTY, EMPTY], [EMPTY, EMPTY, EMPTY]] (0, 0)
       = Inl InvalidAction
   \<and> result [[Some MarkX, EMPTY, EMPTY], [EMPTY, EMPTY, EMPTY], [EMPTY, EMPTY, EMPTY]] (3, 1)
       = Inl InvalidAction
   \<and> result [[Some MarkX, EMPTY, EMPTY], [EMPTY, EMPTY, EMPTY], [EMPTY, EMPTY, EMPTY]] (1, - 1)
       = Inl InvalidAction
   \<and> result [[Some MarkX, EMPTY, EMPTY], [EMPTY, EMPTY, EMPTY], [EMPTY, EMPTY, EMPTY]] (1, 1)
       \<noteq> Inl InvalidAction"
proof -
  let ?b = "[[Some MarkX, EMPTY, EMPTY], [EMPTY, EMPTY, EMPTY], [EMPTY, EMPTY, EMPTY]]"
  have wf: "wf_board ?b" by (simp add: wf_board_def)
  from result_raises_iff [OF wf, of "(0, 0)"] have "result ?b (0, 0) = Inl InvalidAction"
    by simp
  moreover from result_raises_iff [OF wf, of "(3, 1)"]
  have "result ?b (3, 1) = Inl InvalidAction"
    by simp
  moreover from result_raises_iff [OF wf, of "(1, - 1)"]
  have "result ?b (1, - 1) = Inl InvalidAction"
    by simp
  moreover from result_raises_iff [OF wf, of "(1, 1)"]
  have "result ?b (1, 1) \<noteq> Inl InvalidAction"
    by simp
  ultimately show ?thesis using wf by simp
qed

text \<open>
  C5, with the condition on the rows that the code needs.  On a well-formed board
  and for an action of \<^verbatim>\<open>actions(board)\<close>, the board value \<open>board'\<close> of \<^verbatim>\<open>result\<close>
  is well-formed, holds the mark of \<^verbatim>\<open>player(board)\<close> in the cell of the action and
  agrees with the input in the eight other cells.  On the store, whatever the input
  object, \<^verbatim>\<open>result\<close> returns a new object, every object that existed before the
  call is unchanged and the input still reads as the same board.  When the rows of
  the input are distinct objects, the returned object reads as \<open>board'\<close> and its rows
  are distinct objects again.  Without that condition the returned object need not
  read as \<open>board'\<close>: see the theorem after the next.
\<close>

theorem result_frame:
  assumes "wf_board board" and "a \<in> actions board"
  shows "\<exists>board'. result board a = Inr board' \<and> wf_board board' \<and>
           board' ! nat (fst a) ! nat (snd a) = Some (player board) \<and>
           (\<forall>i<3. \<forall>j<3. (i, j) \<noteq> (nat (fst a), nat (snd a)) \<longrightarrow>
              board' ! i ! j = board ! i ! j) \<and>
           (\<forall>h p. board_of h p = Some board \<longrightarrow>
              (\<exists>h' p'. result_h h p a = Some (h', Inr p') \<and> length h \<le> p' \<and>
                 take (length h) h' = h \<and> board_of h' p = Some board)) \<and>
           (\<forall>h p. board_at h p board \<longrightarrow>
              (\<exists>h' p'. result_h h p a = Some (h', Inr p') \<and>
                 board_at h' p' board' \<and> board_at h' p board))"
proof -
  let ?i = "nat (fst a)" and ?j = "nat (snd a)"
  from assms have i: "?i < length board" and j: "?j < length (board ! ?i)"
    by (cases a; simp add: actions_iff)+
  have r: "result board a = Inr (move board a)"
    using assms(2) by (rule result_move)
  have wf: "wf_board (move board a)"
    using assms(1) by (rule wf_board_move)
  have new: "move board a ! ?i ! ?j = Some (player board)"
    using i j by (simp add: move_def)
  have old: "move board a ! k ! l = board ! k ! l" if "(k, l) \<noteq> (?i, ?j)" for k l
    using that i by (cases "k = ?i") (auto simp: move_def nth_list_update)
  have keeps: "\<exists>h' p'. result_h h p a = Some (h', Inr p') \<and> length h \<le> p' \<and>
      take (length h) h' = h \<and> board_of h' p = Some board"
    if "board_of h p = Some board" for h p
    using that assms(2) by (rule result_h_keeps_store)
  have store: "\<exists>h' p'. result_h h p a = Some (h', Inr p') \<and>
      board_at h' p' (move board a) \<and> board_at h' p board"
    if at: "board_at h p board" for h p
  proof -
    let ?h = "h @ Refs [Suc (length h) ..< Suc (length h + length (move board a))]
                  # map Cells (move board a)"
    have len: "length (move board a) = length board"
      by (simp add: move_def)
    from result_h_ok [OF at assms(2)] have "result_h h p a = Some (?h, Inr (length h))"
      by (simp add: len)
    moreover have "board_at ?h (length h) (move board a)"
      by (rule board_at_fresh)
    moreover have "board_at ?h p board"
      using at by (rule board_at_append)
    ultimately show ?thesis
      by (intro exI [of _ ?h] exI [of _ "length h"]) simp
  qed
  from r wf new old keeps store show ?thesis
    by (intro exI [of _ "move board a"]) blast
qed

theorem result_frame_witness:
  "wf_board initial_state \<and> (1, 1) \<in> actions initial_state
   \<and> result initial_state (1, 1)
       = Inr [[EMPTY, EMPTY, EMPTY], [EMPTY, Some MarkX, EMPTY], [EMPTY, EMPTY, EMPTY]]
   \<and> board_at (fst (initial_state_h [])) (snd (initial_state_h [])) initial_state
   \<and> (\<exists>h' p'. result_h (fst (initial_state_h [])) (snd (initial_state_h [])) (1, 1)
                  = Some (h', Inr p')
        \<and> board_at h' p' [[EMPTY, EMPTY, EMPTY], [EMPTY, Some MarkX, EMPTY], [EMPTY, EMPTY, EMPTY]]
        \<and> board_at h' (snd (initial_state_h [])) initial_state)"
proof -
  let ?r = "[[EMPTY, EMPTY, EMPTY], [EMPTY, Some MarkX, EMPTY], [EMPTY, EMPTY, EMPTY]]"
  have wf: "wf_board initial_state"
    by (simp add: wf_board_def initial_state_def)
  have r: "result initial_state (1, 1) = Inr ?r"
    by (simp add: board_eval)
  then have a: "(1, 1) \<in> actions initial_state"
    by (simp add: result_Inr_iff)
  have at: "board_at (fst (initial_state_h [])) (snd (initial_state_h [])) initial_state"
    by (rule initial_state_h_board)
  from result_frame [OF wf a] r at
  have "\<exists>h' p'. result_h (fst (initial_state_h [])) (snd (initial_state_h [])) (1, 1)
                  = Some (h', Inr p')
        \<and> board_at h' p' ?r \<and> board_at h' (snd (initial_state_h [])) initial_state"
    by fastforce
  with wf a r at show ?thesis by blast
qed

text \<open>
  The condition on the rows cannot be dropped.  In the store below the board at
  address 1 is three times the row object at address 0; it reads as the empty board,
  which is well-formed, and \<open>(0, 0)\<close> is one of its actions.  The deep copy keeps
  the sharing, the one write shows in all three rows, and the returned board differs
  from the input in the cell \<open>(1, 0)\<close> too, which the action does not name.
\<close>

theorem result_frame_counterexample:
  "board_of [Cells [EMPTY, EMPTY, EMPTY], Refs [0, 0, 0]] 1 = Some initial_state
   \<and> wf_board initial_state
   \<and> (0, 0) \<in> actions initial_state
   \<and> result_h [Cells [EMPTY, EMPTY, EMPTY], Refs [0, 0, 0]] 1 (0, 0) =
         Some ([Cells [EMPTY, EMPTY, EMPTY], Refs [0, 0, 0], Refs [3, 3, 3],
                Cells [Some MarkX, EMPTY, EMPTY]], Inr 2)
   \<and> board_of [Cells [EMPTY, EMPTY, EMPTY], Refs [0, 0, 0], Refs [3, 3, 3],
                 Cells [Some MarkX, EMPTY, EMPTY]] 2 =
         Some [[Some MarkX, EMPTY, EMPTY], [Some MarkX, EMPTY, EMPTY],
               [Some MarkX, EMPTY, EMPTY]]
   \<and> [[Some MarkX, EMPTY, EMPTY], [Some MarkX, EMPTY, EMPTY],
        [Some MarkX, EMPTY, EMPTY]] ! 1 ! 0 \<noteq> initial_state ! 1 ! 0
   \<and> result initial_state (0, 0) =
         Inr [[Some MarkX, EMPTY, EMPTY], [EMPTY, EMPTY, EMPTY], [EMPTY, EMPTY, EMPTY]]"
proof -
  let ?h = "[Cells [EMPTY, EMPTY, EMPTY], Refs [0, 0, 0]]"
  let ?h' = "[Cells [EMPTY, EMPTY, EMPTY], Refs [0, 0, 0], Refs [3, 3, 3],
              Cells [Some MarkX, EMPTY, EMPTY]]"
  have "board_of ?h 1 = Some initial_state"
    by (simp add: board_of_def refs_at_def cells_at_def initial_state_def)
  moreover have "wf_board initial_state"
    by (simp add: wf_board_def initial_state_def)
  moreover have r: "result initial_state (0, 0) =
      Inr [[Some MarkX, EMPTY, EMPTY], [EMPTY, EMPTY, EMPTY], [EMPTY, EMPTY, EMPTY]]"
    by (simp add: board_eval)
  moreover from r have "(0, 0) \<in> actions initial_state"
    by (simp add: result_Inr_iff)
  moreover have "result_h ?h 1 (0, 0) = Some (?h', Inr 2)"
    by (rule result_h_shared_rows)
  moreover have "board_of ?h' 2 =
      Some [[Some MarkX, EMPTY, EMPTY], [Some MarkX, EMPTY, EMPTY], [Some MarkX, EMPTY, EMPTY]]"
    by (simp add: board_of_def refs_at_def cells_at_def)
  moreover have "[[Some MarkX, EMPTY, EMPTY], [Some MarkX, EMPTY, EMPTY],
      [Some MarkX, EMPTY, EMPTY]] ! 1 ! 0 \<noteq> initial_state ! 1 ! 0"
    by (simp add: initial_state_def)
  ultimately show ?thesis by simp
qed

end
